theory Spec2Isabelle
  imports Main "HOL-Library.Word"
begin

section \<open>Errors and outcomes\<close>

text \<open>
  Go's \<^verbatim>\<open>error\<close> values that the two source files create or tell apart. \<^verbatim>\<open>io.EOF\<close> is
  compared by identity; an error implementing \<^verbatim>\<open>net.Error\<close> carries its \<^verbatim>\<open>Timeout()\<close>
  classification; the remaining constructors are the \<^verbatim>\<open>errors.New\<close> / \<^verbatim>\<open>fmt.Errorf\<close>
  sites of the source and any other error a collaborator may hand back. A nil error is
  \<open>None\<close> of \<open>go_error option\<close>.
\<close>

datatype go_error =
    EOF
  | NetError bool
  | ErrAppNotFound "64 word"
  | ErrTypeAssert "64 word"
  | ErrHook
  | ErrPassThrough
  | ErrOther string

text \<open>A call either returns or panics (nil dereference, slice bound out of range).\<close>

datatype 'a outcome = Return 'a | Panic

section \<open>Core orchestrator (pkg/core/core.go)\<close>

datatype cmdType = Native | Docker | DockerCompose

record HookCfg =
  AppID :: "64 word"
  Pid :: "32 word"
  IsDocker :: bool
  KeployIPV4 :: string

record ProxyOptions =
  DnsIPv4Addr :: string

datatype AppErrorType = ErrInternal | ErrOtherType string

record AppError =
  AppErrorType :: "AppErrorType option"
  Err :: "go_error option"

text \<open>
  The collaborators of the Core are interfaces and packages outside the two source files
  (\<^verbatim>\<open>app.App\<close>, \<^verbatim>\<open>Hooks\<close>, \<^verbatim>\<open>Proxy\<close>); their behaviour is a parameter. The App type is the
  type variable \<open>'a\<close>. \<open>Hooks_Load\<close> and \<open>Proxy_StartProxy\<close> receive the number of
  earlier calls of the same method, so that a collaborator may answer differently from
  call to call.
\<close>

record 'a collaborators =
  NewApp :: "64 word \<Rightarrow> string \<Rightarrow> 'a"
  App_Setup :: "'a \<Rightarrow> string \<Rightarrow> go_error option"
  App_Kind :: "'a \<Rightarrow> cmdType"
  App_KeployIPv4Addr :: "'a \<Rightarrow> string"
  App_Run :: "'a \<Rightarrow> AppError"
  Hooks_Load :: "nat \<Rightarrow> 64 word \<Rightarrow> HookCfg \<Rightarrow> go_error option"
  Proxy_StartProxy :: "nat \<Rightarrow> ProxyOptions \<Rightarrow> go_error option"

text \<open>
  The values of the \<^verbatim>\<open>sync.Map\<close> have the static type \<^verbatim>\<open>any\<close>: \<^verbatim>\<open>getApp\<close> asserts
  \<^verbatim>\<open>*app.App\<close> on what it loads.
\<close>

datatype 'a registry_value = AppPtr 'a | NotAnApp

text \<open>
  The struct \<^verbatim>\<open>Core\<close>. \<open>loadCalls\<close> and \<open>startCalls\<close> are not fields of the source:
  they count the calls made to \<^verbatim>\<open>hook.Load\<close> and \<^verbatim>\<open>proxy.StartProxy\<close>.
\<close>

record 'a Core =
  id_counter :: nat
  apps :: "64 word \<rightharpoonup> 'a registry_value"
  proxyStarted :: bool
  loadCalls :: nat
  startCalls :: nat

definition New :: "'a Core" where
  "New = \<lparr>id_counter = 0, apps = Map.empty, proxyStarted = False, loadCalls = 0, startCalls = 0\<rparr>"

text \<open>
  Modelled from the spec: \<^verbatim>\<open>utils.AutoInc.Next\<close> is not among the source files; the spec
  says that the generator, from a fresh state, yields 0, 1, 2, ... with no repeats. The
  call returns the current counter and advances it.
\<close>

definition AutoInc_Next :: "'a Core \<Rightarrow> nat \<times> 'a Core" where
  "AutoInc_Next c = (id_counter c, c\<lparr>id_counter := Suc (id_counter c)\<rparr>)"

definition Setup ::
  "'a collaborators \<Rightarrow> 'a Core \<Rightarrow> string \<Rightarrow> string \<Rightarrow> (64 word \<times> go_error option) \<times> 'a Core" where
  "Setup env c cmd dockerNetwork =
     (let (n, c1) = AutoInc_Next c;
          appId = (of_nat n :: 64 word);
          a = NewApp env appId cmd;
          err = App_Setup env a dockerNetwork
      in case err of
           Some e \<Rightarrow> ((0, Some e), c1)
         | None \<Rightarrow> ((appId, None), c1))"

definition getApp :: "'a Core \<Rightarrow> 64 word \<Rightarrow> go_error + 'a" where
  "getApp c appId =
     (case apps c appId of
        None \<Rightarrow> Inl (ErrAppNotFound appId)
      | Some NotAnApp \<Rightarrow> Inl (ErrTypeAssert appId)
      | Some (AppPtr h) \<Rightarrow> Inr h)"

definition Hook :: "'a collaborators \<Rightarrow> 'a Core \<Rightarrow> 64 word \<Rightarrow> go_error option \<times> 'a Core" where
  "Hook env c appId =
     (case getApp c appId of
        Inl err \<Rightarrow> (Some ErrHook, c)
      | Inr a \<Rightarrow>
          (let isDocker = (App_Kind env a = Docker \<or> App_Kind env a = DockerCompose);
               err = Hooks_Load env (loadCalls c) appId
                       \<lparr>AppID = appId, Pid = 0, IsDocker = isDocker,
                        KeployIPV4 = App_KeployIPv4Addr env a\<rparr>;
               c1 = c\<lparr>loadCalls := Suc (loadCalls c)\<rparr>
           in case err of
                Some e \<Rightarrow> (Some ErrHook, c1)
              | None \<Rightarrow>
                  if proxyStarted c1 then (None, c1)
                  else
                    (let err2 = Proxy_StartProxy env (startCalls c1)
                                  \<lparr>DnsIPv4Addr = App_KeployIPv4Addr env a\<rparr>;
                         c2 = c1\<lparr>startCalls := Suc (startCalls c1)\<rparr>
                     in case err2 of
                          Some e \<Rightarrow> (Some ErrHook, c2)
                        | None \<Rightarrow> (None, c2\<lparr>proxyStarted := True\<rparr>))))"

text \<open>
  \<^verbatim>\<open>Run\<close>: the goroutine that forwards the inode to the hook and the channel handed to
  the App belong to \<^verbatim>\<open>a.Run\<close>'s behaviour, which is the collaborator's \<open>App_Run\<close>.
\<close>

definition Run :: "'a collaborators \<Rightarrow> 'a Core \<Rightarrow> 64 word \<Rightarrow> bool \<Rightarrow> AppError" where
  "Run env c appId serveTest =
     (if serveTest then \<lparr>AppErrorType = None, Err = None\<rparr>
      else case getApp c appId of
             Inl err \<Rightarrow> \<lparr>AppErrorType = Some ErrInternal, Err = Some err\<rparr>
           | Inr a \<Rightarrow> App_Run env a)"

text \<open>The states a Core goes through over a sequence of \<^verbatim>\<open>Hook\<close> calls, the first one included.\<close>

fun Hook_run :: "'a collaborators \<Rightarrow> 'a Core \<Rightarrow> 64 word list \<Rightarrow> 'a Core list" where
  "Hook_run env c [] = [c]"
| "Hook_run env c (appId # ids) = c # Hook_run env (snd (Hook env c appId)) ids"

text \<open>
  The calls a Core receives in its lifetime, which starts at \<open>New\<close>, and the Core after a
  sequence of them. \<^verbatim>\<open>Run\<close> reads the registry and writes no field of the Core.
\<close>

datatype core_op = OpSetup string string | OpHook "64 word" | OpRun "64 word" bool

fun Core_step :: "'a collaborators \<Rightarrow> 'a Core \<Rightarrow> core_op \<Rightarrow> 'a Core" where
  "Core_step env c (OpSetup cmd dockerNetwork) = snd (Setup env c cmd dockerNetwork)"
| "Core_step env c (OpHook appId) = snd (Hook env c appId)"
| "Core_step env c (OpRun appId serveTest) = c"

definition Core_after :: "'a collaborators \<Rightarrow> 'a Core \<Rightarrow> core_op list \<Rightarrow> 'a Core" where
  "Core_after env c ops = foldl (Core_step env) c ops"

text \<open>How often a flag goes from false to true, and from true to false, along a list.\<close>

fun rises :: "bool list \<Rightarrow> nat" where
  "rises (a # b # bs) = (if \<not> a \<and> b then 1 else 0) + rises (b # bs)"
| "rises _ = 0"

fun falls :: "bool list \<Rightarrow> nat" where
  "falls (a # b # bs) = (if a \<and> \<not> b then 1 else 0) + falls (b # bs)"
| "falls _ = 0"

text \<open>Concrete collaborators and Cores for the closed theorems.\<close>

definition env_ok :: "unit collaborators" where
  "env_ok = \<lparr>NewApp = (\<lambda>_ _. ()), App_Setup = (\<lambda>_ _. None), App_Kind = (\<lambda>_. Native),
             App_KeployIPv4Addr = (\<lambda>_. ''172.18.0.2''),
             App_Run = (\<lambda>_. \<lparr>AppErrorType = None, Err = None\<rparr>),
             Hooks_Load = (\<lambda>_ _ _. None), Proxy_StartProxy = (\<lambda>_ _. None)\<rparr>"

definition env_proxy_fails :: "unit collaborators" where
  "env_proxy_fails = env_ok\<lparr>Proxy_StartProxy := (\<lambda>_ _. Some (ErrOther ''bind: address already in use''))\<rparr>"

definition core_with_app :: "unit Core" where
  "core_with_app = New\<lparr>apps := [1 \<mapsto> AppPtr ()]\<rparr>"

section \<open>Buffered connection I/O\<close>

type_synonym bytes = "8 word list"

text \<open>
  A \<^verbatim>\<open>context.Context\<close> is either never cancelled or cancelled from some poll of
  \<^verbatim>\<open>ctx.Done()\<close> on: \<open>CancelledFrom k\<close> makes poll number \<open>k\<close> (counted from 0 over the
  whole run) and every later one observe the cancellation, as a closed channel stays
  closed.
\<close>

datatype ctx = Background | CancelledFrom nat

definition ctx_done :: "ctx \<Rightarrow> nat \<Rightarrow> bool" where
  "ctx_done c t = (case c of Background \<Rightarrow> False | CancelledFrom k \<Rightarrow> k \<le> t)"

text \<open>
  An \<^verbatim>\<open>io.Reader\<close>: what call number \<open>k\<close> of \<^verbatim>\<open>Read\<close> delivers into a buffer of the
  given length, the bytes read (\<^verbatim>\<open>n\<close> is their number, so \<^verbatim>\<open>n\<close> is never negative) and
  the error. A nil reader is \<open>None\<close> of \<open>reader option\<close>.
\<close>

type_synonym reader = "nat \<Rightarrow> nat \<Rightarrow> bytes \<times> go_error option"

text \<open>What \<^verbatim>\<open>ReadBuffConn\<close> sends: on \<^verbatim>\<open>bufferChannel\<close> or on \<^verbatim>\<open>errChannel\<close>.\<close>

datatype publication = ToBuffer bytes | ToErr go_error

text \<open>
  The effects of the read primitives, threaded through them: the polls of \<^verbatim>\<open>ctx.Done()\<close>
  made so far, the \<^verbatim>\<open>Read\<close> calls made so far, the durations in milliseconds of the
  \<^verbatim>\<open>time.Sleep\<close> calls, and the values sent on the channels, each in order. A channel
  send is recorded when it is made: the receiver it waits for is taken to be there.
\<close>

record io =
  ticks :: nat
  nreads :: nat
  sleeps :: "nat list"
  published :: "publication list"

definition io0 :: io where
  "io0 = \<lparr>ticks = 0, nreads = 0, sleeps = [], published = []\<rparr>"

definition poll :: "io \<Rightarrow> io" where
  "poll w = w\<lparr>ticks := Suc (ticks w)\<rparr>"

definition did_read :: "io \<Rightarrow> io" where
  "did_read w = w\<lparr>nreads := Suc (nreads w)\<rparr>"

definition sleep :: "nat \<Rightarrow> io \<Rightarrow> io" where
  "sleep ms w = w\<lparr>sleeps := sleeps w @ [ms]\<rparr>"

definition publish :: "publication \<Rightarrow> io \<Rightarrow> io" where
  "publish p w = w\<lparr>published := published w @ [p]\<rparr>"

definition maxEmptyReads :: nat where
  "maxEmptyReads = 5"

text \<open>
  The loop of \<^verbatim>\<open>ReadBytes\<close>, one iteration per unit of fuel; \<open>None\<close> when the fuel runs
  out before the loop returns. A nil reader panics at \<^verbatim>\<open>reader.Read\<close>, and a reader that
  reports more bytes than the buffer holds panics at \<^verbatim>\<open>buf[:n]\<close>.
\<close>

fun ReadBytes_loop ::
  "nat \<Rightarrow> ctx \<Rightarrow> reader option \<Rightarrow> io \<Rightarrow> bytes \<Rightarrow> nat
     \<Rightarrow> ((bytes \<times> go_error option) outcome \<times> io) option" where
  "ReadBytes_loop 0 c reader w buffer emptyReads = None"
| "ReadBytes_loop (Suc fuel) c reader w buffer emptyReads =
     (if ctx_done c (ticks w) then Some (Return (buffer, None), poll w)
      else case reader of
        None \<Rightarrow> Some (Panic, poll w)
      | Some rd \<Rightarrow>
          (let data = fst (rd (nreads w) 1024);
               err = snd (rd (nreads w) 1024);
               n = length data;
               w1 = did_read (poll w)
           in if n > 1024 then Some (Panic, w1)
              else
                (let buffer1 = (if n > 0 then buffer @ data else buffer);
                     emptyReads1 = (if n > 0 then 0 else emptyReads)
                 in case err of
                      Some e \<Rightarrow>
                        if e = EOF then
                          (if emptyReads1 + 1 \<ge> maxEmptyReads
                           then Some (Return (buffer1, Some e), w1)
                           else ReadBytes_loop fuel c reader (sleep 100 w1) buffer1 (emptyReads1 + 1))
                        else Some (Return (buffer1, Some e), w1)
                    | None \<Rightarrow>
                        if n < 1024 then Some (Return (buffer1, None), w1)
                        else ReadBytes_loop fuel c reader w1 buffer1 emptyReads1)))"

definition ReadBytes ::
  "nat \<Rightarrow> ctx \<Rightarrow> reader option \<Rightarrow> io \<Rightarrow> ((bytes \<times> go_error option) outcome \<times> io) option" where
  "ReadBytes fuel c reader w = ReadBytes_loop fuel c reader w [] 0"

text \<open>
  The loop of \<^verbatim>\<open>ReadRequiredBytes\<close>. \<^verbatim>\<open>numBytes\<close> is a Go \<^verbatim>\<open>int\<close>:
  \<^verbatim>\<open>make([]byte, numBytes)\<close> panics when it is negative.
\<close>

fun ReadRequiredBytes_loop ::
  "nat \<Rightarrow> ctx \<Rightarrow> reader option \<Rightarrow> io \<Rightarrow> bytes \<Rightarrow> int \<Rightarrow> nat
     \<Rightarrow> ((bytes \<times> go_error option) outcome \<times> io) option" where
  "ReadRequiredBytes_loop 0 c reader w buffer numBytes emptyReads = None"
| "ReadRequiredBytes_loop (Suc fuel) c reader w buffer numBytes emptyReads =
     (if ctx_done c (ticks w) then Some (Return (buffer, None), poll w)
      else if numBytes < 0 then Some (Panic, poll w)
      else case reader of
        None \<Rightarrow> Some (Panic, poll w)
      | Some rd \<Rightarrow>
          (let data = fst (rd (nreads w) (nat numBytes));
               err = snd (rd (nreads w) (nat numBytes));
               n = int (length data);
               w1 = did_read (poll w)
           in if n = numBytes then Some (Return (buffer @ data, None), w1)
              else if n > numBytes then Some (Panic, w1)
              else
                (let buffer1 = (if n > 0 then buffer @ data else buffer);
                     numBytes1 = (if n > 0 then numBytes - n else numBytes);
                     emptyReads1 = (if n > 0 then 0 else emptyReads)
                 in case err of
                      Some e \<Rightarrow>
                        if e = EOF then
                          (if emptyReads1 + 1 \<ge> maxEmptyReads
                           then Some (Return (buffer1, Some e), w1)
                           else ReadRequiredBytes_loop fuel c reader (sleep 100 w1)
                                  buffer1 numBytes1 (emptyReads1 + 1))
                        else Some (Return (buffer1, Some e), w1)
                    | None \<Rightarrow>
                        ReadRequiredBytes_loop fuel c reader w1 buffer1 numBytes1 emptyReads1)))"

definition ReadRequiredBytes ::
  "nat \<Rightarrow> ctx \<Rightarrow> reader option \<Rightarrow> io \<Rightarrow> int
     \<Rightarrow> ((bytes \<times> go_error option) outcome \<times> io) option" where
  "ReadRequiredBytes fuel c reader w numBytes = ReadRequiredBytes_loop fuel c reader w [] numBytes 0"

text \<open>
  One iteration of the loop of \<^verbatim>\<open>ReadBuffConn\<close>: either the function is over (it returned,
  or the panic of \<^verbatim>\<open>ReadBytes\<close> went through it), or the loop goes on.
\<close>

datatype loop_status = Again | Over "unit outcome"

definition ReadBuffConn_iter ::
  "nat \<Rightarrow> ctx \<Rightarrow> reader option \<Rightarrow> io \<Rightarrow> (loop_status \<times> io) option" where
  "ReadBuffConn_iter fuel c conn w =
     (if ctx_done c (ticks w) then Some (Over (Return ()), poll w)
      else case ReadBytes fuel c conn (poll w) of
        None \<Rightarrow> None
      | Some (Panic, w1) \<Rightarrow> Some (Over Panic, w1)
      | Some (Return (buffer, Some err), w1) \<Rightarrow> Some (Over (Return ()), publish (ToErr err) w1)
      | Some (Return (buffer, None), w1) \<Rightarrow> Some (Again, publish (ToBuffer buffer) w1))"

fun ReadBuffConn ::
  "nat \<Rightarrow> ctx \<Rightarrow> reader option \<Rightarrow> io \<Rightarrow> (unit outcome \<times> io) option" where
  "ReadBuffConn 0 c conn w = None"
| "ReadBuffConn (Suc fuel) c conn w =
     (case ReadBuffConn_iter fuel c conn w of
        None \<Rightarrow> None
      | Some (Again, w1) \<Rightarrow> ReadBuffConn fuel c conn w1
      | Some (Over r, w1) \<Rightarrow> Some (r, w1))"

section \<open>Pass-through relay\<close>

text \<open>
  A \<^verbatim>\<open>net.Conn\<close>, by what its methods answer: call number \<open>k\<close> of \<^verbatim>\<open>Write\<close> with the
  given bytes, \<^verbatim>\<open>Close\<close>, and the reader it is. A nil connection is \<open>None\<close>.
\<close>

record conn =
  Write_result :: "nat \<Rightarrow> bytes \<Rightarrow> go_error option"
  Close_result :: "go_error option"
  Read_result :: reader

datatype endpoint = Client | Dest

text \<open>The calls \<^verbatim>\<open>PassThrough\<close> makes on its connections, and the start of its goroutine.\<close>

datatype net_event = WriteCall endpoint bytes | CloseCall endpoint | StartReader

text \<open>The case of the \<^verbatim>\<open>select\<close> of \<^verbatim>\<open>PassThrough\<close> that is taken, with the value received.\<close>

datatype select_event = RecvBuffer bytes | RecvErr "go_error option" | CtxDone

text \<open>\<^verbatim>\<open>netErr, ok := err.(net.Error); ok && netErr.Timeout()\<close>\<close>

fun is_net_timeout :: "go_error option \<Rightarrow> bool" where
  "is_net_timeout (Some (NetError t)) = t"
| "is_net_timeout _ = False"

fun write_requests :: "conn \<Rightarrow> nat \<Rightarrow> bytes list \<Rightarrow> go_error option \<times> net_event list" where
  "write_requests d k [] = (None, [])"
| "write_requests d k (v # vs) =
     (case Write_result d k v of
        Some e \<Rightarrow> (Some e, [WriteCall Dest v])
      | None \<Rightarrow> (fst (write_requests d (Suc k) vs), WriteCall Dest v # snd (write_requests d (Suc k) vs)))"

text \<open>
  What the goroutine of \<^verbatim>\<open>PassThrough\<close> sends first: the sends of the first iteration of
  \<^verbatim>\<open>ReadBuffConn\<close> on the destination (none when it stops on cancellation, or when it
  panics and \<^verbatim>\<open>utils.Recover\<close> ends it).
\<close>

definition reader_first :: "nat \<Rightarrow> ctx \<Rightarrow> conn \<Rightarrow> publication list option" where
  "reader_first fuel c d =
     (case ReadBuffConn_iter fuel c (Some (Read_result d)) io0 of
        None \<Rightarrow> None
      | Some (st, w) \<Rightarrow> Some (published w))"

text \<open>
  Whether a case of the \<^verbatim>\<open>select\<close> can be the one taken: a receive needs the goroutine's
  first send to be that value on that channel, and \<^verbatim>\<open>ctx.Done()\<close> needs the context to be
  cancelled at some time. When two cases are ready Go picks either.
\<close>

definition select_fires :: "nat \<Rightarrow> ctx \<Rightarrow> conn \<Rightarrow> select_event \<Rightarrow> bool" where
  "select_fires fuel c d ev =
     (case ev of
        RecvBuffer buffer \<Rightarrow> reader_first fuel c d = Some [ToBuffer buffer]
      | RecvErr None \<Rightarrow> False
      | RecvErr (Some e) \<Rightarrow> reader_first fuel c d = Some [ToErr e]
      | CtxDone \<Rightarrow> c \<noteq> Background)"

text \<open>
  \<^verbatim>\<open>PassThrough\<close> from the first write on, for a destination that is not nil; the
  deferred \<^verbatim>\<open>Close\<close> is added by \<open>PassThrough\<close> below. \<open>ev\<close> is the case of the
  \<^verbatim>\<open>select\<close> taken; the result is \<open>None\<close> when that case cannot be taken (within the
  fuel given to the goroutine), so that the call is still waiting. Logging is left out.
\<close>

definition PassThrough_body ::
  "nat \<Rightarrow> select_event \<Rightarrow> ctx \<Rightarrow> conn option \<Rightarrow> conn \<Rightarrow> bytes list
     \<Rightarrow> ((bytes option \<times> go_error option) outcome \<times> net_event list) option" where
  "PassThrough_body fuel ev c clientConn d requestBuffer =
     (case write_requests d 0 requestBuffer of
        (Some err, tr) \<Rightarrow> Some (Return (None, Some err), tr)
      | (None, tr) \<Rightarrow>
          if \<not> select_fires fuel c d ev then None
          else
            (case ev of
               RecvBuffer buffer \<Rightarrow>
                 (case clientConn of
                    None \<Rightarrow> Some (Panic, tr @ [StartReader])
                  | Some cl \<Rightarrow>
                      (case Write_result cl 0 buffer of
                         Some err \<Rightarrow>
                           Some (Return (None, Some err), tr @ [StartReader, WriteCall Client buffer])
                       | None \<Rightarrow>
                           Some (Return (None, None), tr @ [StartReader, WriteCall Client buffer])))
             | RecvErr err \<Rightarrow>
                 if \<not> is_net_timeout err \<and> err \<noteq> None
                 then Some (Return (None, err), tr @ [StartReader])
                 else Some (Return (None, None), tr @ [StartReader])
             | CtxDone \<Rightarrow> Some (Return (None, None), tr @ [StartReader])))"

definition PassThrough ::
  "nat \<Rightarrow> select_event \<Rightarrow> ctx \<Rightarrow> conn option \<Rightarrow> conn option \<Rightarrow> bytes list
     \<Rightarrow> ((bytes option \<times> go_error option) outcome \<times> net_event list) option" where
  "PassThrough fuel ev c clientConn destConn requestBuffer =
     (case destConn of
        None \<Rightarrow> Some (Return (None, Some ErrPassThrough), [])
      | Some d \<Rightarrow>
          (case PassThrough_body fuel ev c clientConn d requestBuffer of
             None \<Rightarrow> None
           | Some (res, tr) \<Rightarrow> Some (res, tr @ [CloseCall Dest])))"

text \<open>The payloads of the writes to the destination in a trace, in order.\<close>

fun dest_writes :: "net_event list \<Rightarrow> bytes list" where
  "dest_writes [] = []"
| "dest_writes (WriteCall Dest v # tr) = v # dest_writes tr"
| "dest_writes (e # tr) = dest_writes tr"

definition core_started :: "unit Core" where
  "core_started = snd (Hook env_ok core_with_app 1)"

text \<open>
  The number of \<^verbatim>\<open>Read\<close> calls in a row, up to call number \<open>k\<close> (excluded) and not
  before call number \<open>k0\<close>, that ended with \<^verbatim>\<open>io.EOF\<close> on a 1024-byte buffer.
\<close>

fun eof_streak :: "reader \<Rightarrow> nat \<Rightarrow> nat \<Rightarrow> nat" where
  "eof_streak rd k0 0 = 0"
| "eof_streak rd k0 (Suc k) =
     (if k0 \<le> k \<and> snd (rd k 1024) = Some EOF then Suc (eof_streak rd k0 k) else 0)"

text \<open>Concrete readers and connections for the closed theorems.\<close>

definition rd_hello :: reader where
  "rd_hello = (\<lambda>k sz. if k = 0 then ([104, 101, 108, 108, 111], None) else ([], Some EOF))"

definition rd_eof :: reader where
  "rd_eof = (\<lambda>k sz. ([], Some EOF))"

definition conn_timeout :: conn where
  "conn_timeout = \<lparr>Write_result = (\<lambda>k v. None), Close_result = None,
                    Read_result = (\<lambda>k sz. ([], Some (NetError True)))\<rparr>"

definition conn_reset :: conn where
  "conn_reset = \<lparr>Write_result = (\<lambda>k v. None), Close_result = None,
                  Read_result = (\<lambda>k sz. ([], Some (ErrOther ''connection reset by peer'')))\<rparr>"

definition conn_refused :: conn where
  "conn_refused = \<lparr>Write_result = (\<lambda>k v. None), Close_result = None,
                    Read_result = (\<lambda>k sz. ([], Some (NetError False)))\<rparr>"

definition conn_second_write_fails :: conn where
  "conn_second_write_fails =
     \<lparr>Write_result = (\<lambda>k v. if k = 1 then Some (ErrOther ''broken pipe'') else None),
      Close_result = None, Read_result = rd_hello\<rparr>"

definition rd_hello_reset :: reader where
  "rd_hello_reset = (\<lambda>k sz. if k = 0 then ([104, 101, 108, 108, 111], None)
                               else ([], Some (ErrOther ''connection reset by peer'')))"

section \<open>Address codec\<close>

unbundle bit_operations_syntax

text \<open>
  \<^verbatim>\<open>ToIP4AddressStr\<close> and \<^verbatim>\<open>ToIPV4\<close> are built on Go's \<^verbatim>\<open>fmt\<close>, \<^verbatim>\<open>strconv\<close> and \<^verbatim>\<open>net\<close>
  packages. The library functions they call are written out here after the library's
  own algorithms: the digits of an unsigned integer in a base (up to ten), most significant
  first, as \<^verbatim>\<open>fmt\<close> produces them for the verbs \<^verbatim>\<open>%b\<close> and \<^verbatim>\<open>%d\<close>; the zero padding of the
  flag \<^verbatim>\<open>0\<close> with a width; \<^verbatim>\<open>strconv.ParseUint\<close>; and the dotted-decimal parser of
  \<^verbatim>\<open>net.ParseIP\<close> with \<^verbatim>\<open>IP.To4\<close>. A Go string is its list of bytes.
\<close>

definition digit_char :: "nat \<Rightarrow> char" where
  "digit_char d = ''0123456789'' ! d"

definition is_digit :: "char \<Rightarrow> bool" where
  "is_digit ch = ((of_char CHR ''0'' :: nat) \<le> of_char ch \<and> (of_char ch :: nat) \<le> of_char CHR ''9'')"

definition digit_val :: "char \<Rightarrow> nat" where
  "digit_val ch = of_char ch - of_char CHR ''0''"

text \<open>The digits of \<open>u\<close> in the given base: the last digit is \<open>u mod base\<close>.\<close>

function fmt_uint :: "nat \<Rightarrow> nat \<Rightarrow> string" where
  "fmt_uint base u =
     (if base < 2 \<or> u < base then [digit_char u]
      else fmt_uint base (u div base) @ [digit_char (u mod base)])"
  by pat_completeness auto
termination
  by (relation "measure snd") auto

declare fmt_uint.simps [simp del]

text \<open>\<^verbatim>\<open>fmt.Sprintf("%032b", ip)\<close> and \<^verbatim>\<open>fmt.Sprintf("%d", u)\<close>.\<close>

definition pad_zeros :: "nat \<Rightarrow> string \<Rightarrow> string" where
  "pad_zeros wid s = replicate (wid - length s) CHR ''0'' @ s"

definition Sprintf_032b :: "32 word \<Rightarrow> string" where
  "Sprintf_032b ip = pad_zeros 32 (fmt_uint 2 (unat ip))"

definition Sprintf_d :: "nat \<Rightarrow> string" where
  "Sprintf_d u = fmt_uint 10 u"

text \<open>
  The slice \<^verbatim>\<open>s[i:j]\<close>. The source slices a string of 32 bytes within its bounds
  (\<open>Sprintf_032b_bin\<close> and \<open>length_bin_digits\<close> below), where Go does not panic.
\<close>

definition substr :: "string \<Rightarrow> nat \<Rightarrow> nat \<Rightarrow> string" where
  "substr s i j = take (j - i) (drop i s)"

text \<open>
  \<^verbatim>\<open>strconv.ParseUint(s, base, bitSize)\<close> for a base up to ten: the value and the error.
  A byte that is not a digit of the base ends the call with 0 and a syntax error, a value
  above the largest of the bit size ends it with that largest value and a range error.
\<close>

fun ParseUint_loop :: "nat \<Rightarrow> nat \<Rightarrow> nat \<Rightarrow> string \<Rightarrow> nat \<times> go_error option" where
  "ParseUint_loop base maxVal n [] = (n, None)"
| "ParseUint_loop base maxVal n (ch # s) =
     (if \<not> (is_digit ch \<and> digit_val ch < base) then (0, Some (ErrOther ''invalid syntax''))
      else if n * base + digit_val ch > maxVal then (maxVal, Some (ErrOther ''value out of range''))
      else ParseUint_loop base maxVal (n * base + digit_val ch) s)"

definition ParseUint :: "string \<Rightarrow> nat \<Rightarrow> nat \<Rightarrow> nat \<times> go_error option" where
  "ParseUint s base bitSize =
     (if s = [] then (0, Some (ErrOther ''invalid syntax''))
      else ParseUint_loop base (2 ^ bitSize - 1) 0 s)"

text \<open>\<^verbatim>\<open>ToIP4AddressStr\<close>; the errors of \<^verbatim>\<open>ParseUint\<close> are dropped, as the source drops them.\<close>

definition ToIP4AddressStr :: "32 word \<Rightarrow> string" where
  "ToIP4AddressStr ip =
     (let ipBinary = Sprintf_032b ip;
          firstByte = fst (ParseUint (substr ipBinary 0 8) 2 64);
          secondByte = fst (ParseUint (substr ipBinary 8 16) 2 64);
          thirdByte = fst (ParseUint (substr ipBinary 16 24) 2 64);
          fourthByte = fst (ParseUint (substr ipBinary 24 32) 2 64)
      in Sprintf_d firstByte @ ''.'' @ Sprintf_d secondByte @ ''.''
           @ Sprintf_d thirdByte @ ''.'' @ Sprintf_d fourthByte)"

text \<open>
  \<^verbatim>\<open>net.ParseIP\<close>: the first \<^verbatim>\<open>.\<close> or \<^verbatim>\<open>:\<close> of the text decides between the IPv4 and the
  IPv6 parser (the latter is a parameter); with neither the result is nil. The IPv4
  parser reads four decimal fields with \<^verbatim>\<open>dtoi\<close>, separated by dots, each at most 255 and
  without a leading zero, and returns the 16-byte form \<^verbatim>\<open>net.IPv4(a, b, c, d)\<close>. A nil
  \<^verbatim>\<open>net.IP\<close> is \<open>None\<close>.
\<close>

definition big :: nat where
  "big = 0xFFFFFF"

fun dtoi_loop :: "nat \<Rightarrow> nat \<Rightarrow> string \<Rightarrow> nat \<times> nat \<times> bool" where
  "dtoi_loop n i [] = (if i = 0 then (0, 0, False) else (n, i, True))"
| "dtoi_loop n i (ch # s) =
     (if is_digit ch then
        (if n * 10 + digit_val ch \<ge> big then (big, i, False)
         else dtoi_loop (n * 10 + digit_val ch) (Suc i) s)
      else if i = 0 then (0, 0, False) else (n, i, True))"

definition dtoi :: "string \<Rightarrow> nat \<times> nat \<times> bool" where
  "dtoi s = dtoi_loop 0 0 s"

definition IPv4 :: "8 word \<Rightarrow> 8 word \<Rightarrow> 8 word \<Rightarrow> 8 word \<Rightarrow> bytes" where
  "IPv4 a b c d = [0, 0, 0, 0, 0, 0, 0, 0, 0, 0, 0xff, 0xff, a, b, c, d]"

fun parseIPv4_loop :: "nat \<Rightarrow> nat \<Rightarrow> string \<Rightarrow> bytes \<Rightarrow> bytes option" where
  "parseIPv4_loop 0 i s p =
     (if s \<noteq> [] then None else Some (IPv4 (p ! 0) (p ! 1) (p ! 2) (p ! 3)))"
| "parseIPv4_loop (Suc k) i s p =
     (if s = [] then None
      else if i > 0 \<and> hd s \<noteq> CHR ''.'' then None
      else
        (let s1 = (if i > 0 then tl s else s);
             n = fst (dtoi s1);
             c = fst (snd (dtoi s1));
             ok = snd (snd (dtoi s1))
         in if \<not> ok \<or> n > 0xFF then None
            else if c > 1 \<and> hd s1 = CHR ''0'' then None
            else parseIPv4_loop k (Suc i) (drop c s1) (p @ [of_nat n])))"

definition parseIPv4 :: "string \<Rightarrow> bytes option" where
  "parseIPv4 s = parseIPv4_loop 4 0 s []"

fun ParseIP_scan :: "(string \<Rightarrow> bytes option) \<Rightarrow> string \<Rightarrow> string \<Rightarrow> bytes option" where
  "ParseIP_scan parseIPv6 s [] = None"
| "ParseIP_scan parseIPv6 s (ch # rest) =
     (if ch = CHR ''.'' then parseIPv4 s
      else if ch = CHR '':'' then parseIPv6 s
      else ParseIP_scan parseIPv6 s rest)"

definition ParseIP :: "(string \<Rightarrow> bytes option) \<Rightarrow> string \<Rightarrow> bytes option" where
  "ParseIP parseIPv6 s = ParseIP_scan parseIPv6 s s"

text \<open>\<^verbatim>\<open>IP.To4\<close>: a 4-byte address as it is, the last four bytes of an IPv4-mapped one, else nil.\<close>

definition To4 :: "bytes option \<Rightarrow> bytes option" where
  "To4 ip =
     (case ip of
        None \<Rightarrow> None
      | Some b \<Rightarrow>
          if length b = 4 then Some b
          else if length b = 16 \<and> take 10 b = replicate 10 0 \<and> b ! 10 = 0xff \<and> b ! 11 = 0xff
          then Some (take 4 (drop 12 b))
          else None)"

text \<open>
  \<^verbatim>\<open>ToIPV4\<close>. \<^verbatim>\<open>To4\<close> returns nil or four bytes, so that the four index expressions are
  within bounds.
\<close>

definition ToIPV4 :: "bytes option \<Rightarrow> 32 word \<times> bool" where
  "ToIPV4 ip =
     (case To4 ip of
        None \<Rightarrow> (0, False)
      | Some ipv4 \<Rightarrow>
          (push_bit 24 (ucast (ipv4 ! 0)) OR push_bit 16 (ucast (ipv4 ! 1))
             OR push_bit 8 (ucast (ipv4 ! 2)) OR ucast (ipv4 ! 3), True))"

text \<open>
  The \<open>k\<close> low binary digits of \<open>n\<close>, most significant first, and the value of a
  string of decimal digits read after the value \<open>acc\<close>.
\<close>

fun bin_digits :: "nat \<Rightarrow> nat \<Rightarrow> string" where
  "bin_digits 0 n = []"
| "bin_digits (Suc k) n = digit_char (n div 2 ^ k mod 2) # bin_digits k n"

definition dec_value :: "nat \<Rightarrow> string \<Rightarrow> nat" where
  "dec_value acc ds = foldl (\<lambda>a ch. a * 10 + digit_val ch) acc ds"

section \<open>Properties of the Core orchestrator\<close>

text \<open>
  Claim C1. The claim says that after a \<^verbatim>\<open>Setup\<close> that returns an id with a nil error the
  App is in the registry, so that \<^verbatim>\<open>Hook\<close> and \<^verbatim>\<open>Run\<close> on that id find it. The code never
  stores into \<^verbatim>\<open>c.apps\<close>: \<^verbatim>\<open>Setup\<close> leaves the registry as it was, so that on a new Core
  \<^verbatim>\<open>getApp\<close> fails with the not-found error for every id, \<^verbatim>\<open>Hook\<close> returns its generic error
  and \<^verbatim>\<open>Run\<close> (when not only serving tests) returns an internal error; with collaborators
  that never fail, \<^verbatim>\<open>Setup\<close> returns id 0 with a nil error and \<^verbatim>\<open>Hook\<close> on 0 fails.
\<close>

theorem Setup_does_not_register:
  "apps (snd (Setup env c cmd net)) = apps c
   \<and> getApp (snd (Setup env New cmd net)) appId = Inl (ErrAppNotFound appId)
   \<and> fst (Hook env (snd (Setup env New cmd net)) appId) = Some ErrHook
   \<and> Run env (snd (Setup env New cmd net)) appId False
       = \<lparr>AppErrorType = Some ErrInternal, Err = Some (ErrAppNotFound appId)\<rparr>
   \<and> Setup env_ok New ''./app'' '''' = ((0, None), New\<lparr>id_counter := 1\<rparr>)
   \<and> Hook env_ok (New\<lparr>id_counter := 1\<rparr>) 0 = (Some ErrHook, New\<lparr>id_counter := 1\<rparr>)"
proof -
  have a: "apps (snd (Setup env c cmd net)) = apps c" for c :: "'a Core"
    by (simp add: Setup_def AutoInc_Next_def Let_def split: option.splits)
  have g: "getApp (snd (Setup env New cmd net)) appId = Inl (ErrAppNotFound appId)"
    by (simp add: getApp_def a) (simp add: New_def)
  have e: "Setup env_ok New ''./app'' '''' = ((0, None), New\<lparr>id_counter := 1\<rparr>)
     \<and> Hook env_ok (New\<lparr>id_counter := 1\<rparr>) 0 = (Some ErrHook, New\<lparr>id_counter := 1\<rparr>)"
    by (simp add: Setup_def AutoInc_Next_def Hook_def getApp_def New_def env_ok_def)
  show ?thesis using a g e by (simp add: Hook_def Run_def)
qed

lemma Hook_proxyStarted_mono: "proxyStarted c \<Longrightarrow> proxyStarted (snd (Hook env c appId))"
  by (simp add: Hook_def Let_def split: sum.splits option.splits)

lemma Hook_started_startCalls:
  "proxyStarted c \<Longrightarrow> startCalls (snd (Hook env c appId)) = startCalls c"
  by (simp add: Hook_def Let_def split: sum.splits option.splits)

lemma Hook_run_started:
  "proxyStarted c \<Longrightarrow> c' \<in> set (Hook_run env c ids) \<Longrightarrow> proxyStarted c' \<and> startCalls c' = startCalls c"
proof (induction ids arbitrary: c)
  case Nil
  then show ?case by simp
next
  case (Cons appId ids)
  show ?case
  proof (cases "c' = c")
    case True
    with Cons.prems show ?thesis by simp
  next
    case False
    with Cons.prems have m: "c' \<in> set (Hook_run env (snd (Hook env c appId)) ids)" by simp
    from Cons.IH [OF Hook_proxyStarted_mono [OF Cons.prems(1)] m]
    show ?thesis using Hook_started_startCalls [OF Cons.prems(1)] by simp
  qed
qed

lemma all_true_rises: "\<forall>b \<in> set bs. b \<Longrightarrow> rises bs = 0 \<and> falls bs = 0"
  by (induction bs rule: rises.induct) auto

lemma Hook_run_hd: "\<exists>cs. Hook_run env c ids = c # cs"
  by (cases ids) auto

lemma Hook_run_flag:
  "rises (map proxyStarted (Hook_run env c ids)) \<le> 1 \<and> falls (map proxyStarted (Hook_run env c ids)) = 0"
proof (induction ids arbitrary: c)
  case Nil
  then show ?case by simp
next
  case (Cons appId ids)
  obtain cs where cs: "Hook_run env (snd (Hook env c appId)) ids = snd (Hook env c appId) # cs"
    using Hook_run_hd by blast
  show ?case
  proof (cases "proxyStarted c")
    case True
    then have "\<forall>c' \<in> set (Hook_run env c (appId # ids)). proxyStarted c'"
      using Hook_run_started [of c] by blast
    then have "\<forall>b \<in> set (map proxyStarted (Hook_run env c (appId # ids))). b"
      by (simp del: Hook_run.simps)
    from all_true_rises [OF this] show ?thesis by simp
  next
    case False
    show ?thesis
    proof (cases "proxyStarted (snd (Hook env c appId))")
      case True
      then have "\<forall>c' \<in> set (Hook_run env (snd (Hook env c appId)) ids). proxyStarted c'"
        using Hook_run_started [of "snd (Hook env c appId)"] by blast
      then have "\<forall>b \<in> set (map proxyStarted (Hook_run env (snd (Hook env c appId)) ids)). b"
        by simp
      from all_true_rises [OF this] show ?thesis using False True cs by simp
    next
      case F2: False
      with False Cons.IH [of "snd (Hook env c appId)"] cs show ?thesis by simp
    qed
  qed
qed

lemma Setup_keeps:
  "apps (snd (Setup env c cmd net)) = apps c \<and> startCalls (snd (Setup env c cmd net)) = startCalls c
   \<and> proxyStarted (snd (Setup env c cmd net)) = proxyStarted c"
  by (simp add: Setup_def AutoInc_Next_def Let_def split: option.splits)

lemma Hook_unknown_app: "apps c appId = None \<Longrightarrow> Hook env c appId = (Some ErrHook, c)"
  by (simp add: Hook_def getApp_def)

lemma Core_step_empty:
  "apps c = Map.empty \<Longrightarrow> startCalls c = 0 \<Longrightarrow>
   apps (Core_step env c op) = Map.empty \<and> startCalls (Core_step env c op) = 0"
  by (cases op) (simp_all add: Setup_keeps Hook_unknown_app)

lemma Core_after_empty:
  "apps c = Map.empty \<Longrightarrow> startCalls c = 0 \<Longrightarrow>
   apps (Core_after env c ops) = Map.empty \<and> startCalls (Core_after env c ops) = 0"
proof (induction ops arbitrary: c)
  case Nil
  then show ?case by (simp add: Core_after_def)
next
  case (Cons op ops)
  from Core_step_empty [OF Cons.prems, of env op]
  have "apps (Core_after env (Core_step env c op) ops) = Map.empty
      \<and> startCalls (Core_after env (Core_step env c op) ops) = 0"
    by (intro Cons.IH) simp_all
  then show ?case by (simp add: Core_after_def)
qed



section \<open>Properties of the read primitives\<close>

lemma ctx_done_mono: "ctx_done c s \<Longrightarrow> s \<le> t \<Longrightarrow> ctx_done c t"
  by (cases c) (auto simp: ctx_done_def)

lemma io_simps [simp]:
  "ticks (poll w) = Suc (ticks w)" "nreads (poll w) = nreads w"
  "sleeps (poll w) = sleeps w" "published (poll w) = published w"
  "ticks (did_read w) = ticks w" "nreads (did_read w) = Suc (nreads w)"
  "sleeps (did_read w) = sleeps w" "published (did_read w) = published w"
  "ticks (sleep ms w) = ticks w" "nreads (sleep ms w) = nreads w"
  "sleeps (sleep ms w) = sleeps w @ [ms]" "published (sleep ms w) = published w"
  "ticks (publish p w) = ticks w" "nreads (publish p w) = nreads w"
  "sleeps (publish p w) = sleeps w" "published (publish p w) = published w @ [p]"
  by (simp_all add: poll_def did_read_def sleep_def publish_def)

lemma ReadBytes_loop_step:
  assumes "ReadBytes_loop (Suc fuel) c (Some rd) w buffer er = Some (r, w')"
  shows "(ctx_done c (ticks w) \<and> r = Return (buffer, None) \<and> w' = poll w)
       \<or> (\<not> ctx_done c (ticks w) \<and>
            ((r = Panic \<and> w' = did_read (poll w))
           \<or> (\<exists>b e. snd (rd (nreads w) 1024) = Some e \<and> r = Return (b, Some e) \<and> w' = did_read (poll w))
           \<or> (\<exists>b. r = Return (b, None) \<and> w' = did_read (poll w))
           \<or> (\<exists>w1 b1 e1. ticks w1 = Suc (ticks w) \<and> nreads w1 = Suc (nreads w)
                  \<and> published w1 = published w
                  \<and> ReadBytes_loop fuel c (Some rd) w1 b1 e1 = Some (r, w'))))"
proof (cases "ctx_done c (ticks w)")
  case True
  with assms show ?thesis by simp
next
  case nd: False
  let ?data = "fst (rd (nreads w) 1024)"
  let ?w1 = "did_read (poll w)"
  show ?thesis
  proof (cases "1024 < length ?data")
    case True
    with assms nd show ?thesis by (simp add: Let_def)
  next
    case np: False
    show ?thesis
    proof (cases "snd (rd (nreads w) 1024)")
      case None
      show ?thesis
      proof (cases "length ?data < 1024")
        case True
        with assms nd np None show ?thesis by (auto simp: Let_def)
      next
        case False
        with assms nd np None have
          "\<exists>b1 e1. ReadBytes_loop fuel c (Some rd) ?w1 b1 e1 = Some (r, w')"
          by (simp add: Let_def) blast
        then show ?thesis using nd by (metis io_simps(1,2,4,5,6,8))
      qed
    next
      case (Some e)
      show ?thesis
      proof (cases "e = EOF \<and> \<not> maxEmptyReads \<le> (if 0 < length ?data then 0 else er) + 1")
        case True
        with assms nd np Some have
          "\<exists>b1 e1. ReadBytes_loop fuel c (Some rd) (sleep 100 ?w1) b1 e1 = Some (r, w')"
          by (simp add: Let_def) blast
        then show ?thesis using nd by (metis io_simps(1,2,4,5,6,8,9,10,12))
      next
        case False
        with assms nd np Some have "\<exists>b. r = Return (b, Some e) \<and> w' = ?w1"
          by (cases "e = EOF") (auto simp: Let_def)
        with nd Some show ?thesis by blast
      qed
    qed
  qed
qed

lemma ReadBytes_loop_nil:
  "ReadBytes_loop (Suc fuel) c None w buffer er =
     Some (if ctx_done c (ticks w) then Return (buffer, None) else Panic, poll w)"
  by simp

lemma ReadBytes_loop_published:
  "ReadBytes_loop fuel c reader w buffer er = Some (r, w') \<Longrightarrow> published w' = published w"
proof (induction fuel arbitrary: w buffer er)
  case 0
  then show ?case by simp
next
  case (Suc fuel)
  show ?case
  proof (cases reader)
    case None
    with Suc.prems show ?thesis by (auto split: if_splits)
  next
    case (Some rd)
    from ReadBytes_loop_step [OF Suc.prems [unfolded Some]]
    show ?thesis
    proof (elim disjE conjE exE)
      fix w1 b1 e1
      assume "published w1 = published w"
        and "ReadBytes_loop fuel c (Some rd) w1 b1 e1 = Some (r, w')"
      with Suc.IH [of w1 b1 e1] Some show ?thesis by simp
    qed simp_all
  qed
qed

lemma ReadBytes_loop_error:
  "ReadBytes_loop fuel c (Some rd) w buffer er = Some (Return (b, Some e), w') \<Longrightarrow>
   nreads w < nreads w' \<and> snd (rd (nreads w' - 1) 1024) = Some e \<and> \<not> ctx_done c (ticks w' - 1)"
proof (induction fuel arbitrary: w buffer er)
  case 0
  then show ?case by simp
next
  case (Suc fuel)
  from ReadBytes_loop_step [OF Suc.prems]
  show ?case
  proof (elim disjE conjE exE)
    fix w1 b1 e1
    assume "nreads w1 = Suc (nreads w)"
      and "ReadBytes_loop fuel c (Some rd) w1 b1 e1 = Some (Return (b, Some e), w')"
    with Suc.IH [of w1 b1 e1] show ?thesis by simp
  qed simp_all
qed

lemma ReadRequiredBytes_loop_step:
  assumes "ReadRequiredBytes_loop (Suc fuel) c (Some rd) w buffer nb er = Some (r, w')"
  shows "(ctx_done c (ticks w) \<and> r = Return (buffer, None) \<and> w' = poll w)
       \<or> (\<not> ctx_done c (ticks w) \<and>
            ((r = Panic \<and> (w' = did_read (poll w) \<or> w' = poll w))
           \<or> (\<exists>b e. snd (rd (nreads w) (nat nb)) = Some e \<and> r = Return (b, Some e) \<and> w' = did_read (poll w))
           \<or> (\<exists>b. r = Return (b, None) \<and> w' = did_read (poll w))
           \<or> (\<exists>w1 b1 nb1 e1. ticks w1 = Suc (ticks w) \<and> nreads w1 = Suc (nreads w)
                  \<and> ReadRequiredBytes_loop fuel c (Some rd) w1 b1 nb1 e1 = Some (r, w'))))"
proof (cases "ctx_done c (ticks w)")
  case True
  with assms show ?thesis by simp
next
  case nd: False
  let ?data = "fst (rd (nreads w) (nat nb))"
  let ?w1 = "did_read (poll w)"
  show ?thesis
  proof (cases "nb < 0")
    case True
    with assms nd show ?thesis by auto
  next
    case nn: False
    show ?thesis
    proof (cases "int (length ?data) = nb")
      case True
      with assms nd nn show ?thesis by (auto simp: Let_def)
    next
      case ne: False
      show ?thesis
      proof (cases "nb < int (length ?data)")
        case True
        with assms nd nn ne show ?thesis by (auto simp: Let_def)
      next
        case np: False
        show ?thesis
        proof (cases "snd (rd (nreads w) (nat nb))")
          case None
          with assms nd nn ne np have
            "\<exists>b1 nb1 e1. ReadRequiredBytes_loop fuel c (Some rd) ?w1 b1 nb1 e1 = Some (r, w')"
            by (simp add: Let_def) blast
          then show ?thesis using nd by (metis io_simps(1,2,5,6))
        next
          case (Some e)
          show ?thesis
          proof (cases "e = EOF \<and> \<not> maxEmptyReads \<le> (if 0 < int (length ?data) then 0 else er) + 1")
            case True
            with assms nd nn ne np Some have
              "\<exists>b1 nb1 e1. ReadRequiredBytes_loop fuel c (Some rd) (sleep 100 ?w1) b1 nb1 e1 = Some (r, w')"
              by (simp add: Let_def) blast
            then show ?thesis using nd by (metis io_simps(1,2,5,6,9,10))
          next
            case False
            with assms nd nn ne np Some have "\<exists>b. r = Return (b, Some e) \<and> w' = ?w1"
              by (cases "e = EOF") (auto simp: Let_def)
            with nd Some show ?thesis by blast
          qed
        qed
      qed
    qed
  qed
qed

lemma ReadRequiredBytes_loop_error:
  "ReadRequiredBytes_loop fuel c (Some rd) w buffer nb er = Some (Return (b, Some e), w') \<Longrightarrow>
   nreads w < nreads w' \<and> (\<exists>sz. snd (rd (nreads w' - 1) sz) = Some e) \<and> \<not> ctx_done c (ticks w' - 1)"
proof (induction fuel arbitrary: w buffer nb er)
  case 0
  then show ?case by simp
next
  case (Suc fuel)
  from ReadRequiredBytes_loop_step [OF Suc.prems]
  show ?case
  proof (elim disjE conjE exE)
    fix w1 b1 nb1 e1
    assume "nreads w1 = Suc (nreads w)"
      and "ReadRequiredBytes_loop fuel c (Some rd) w1 b1 nb1 e1 = Some (Return (b, Some e), w')"
    with Suc.IH [of w1 b1 nb1 e1] show ?thesis by simp
  next
    fix b' e'
    assume "snd (rd (nreads w) (nat nb)) = Some e'" "Return (b, Some e) = Return (b', Some e')"
      "w' = did_read (poll w)" "\<not> ctx_done c (ticks w)"
    then show ?thesis by auto
  qed simp_all
qed

lemma ReadBytes_loop_eof_step:
  "\<not> ctx_done c (ticks w) \<Longrightarrow> rd (nreads w) 1024 = ([], Some EOF) \<Longrightarrow>
   ReadBytes_loop (Suc fuel) c (Some rd) w buffer er =
     (if 4 \<le> er then Some (Return (buffer, Some EOF), did_read (poll w))
      else ReadBytes_loop fuel c (Some rd) (sleep 100 (did_read (poll w))) buffer (Suc er))"
  by (simp add: Let_def maxEmptyReads_def)

lemma ReadBytes_always_eof:
  assumes rd: "\<And>k sz. rd k sz = ([], Some EOF)"
    and nc: "\<not> ctx_done c (ticks w + 4)"
    and fuel: "5 \<le> fuel"
  shows "ReadBytes fuel c (Some rd) w =
           Some (Return ([], Some EOF),
                 w\<lparr>ticks := ticks w + 5, nreads := nreads w + 5,
                   sleeps := sleeps w @ [100, 100, 100, 100]\<rparr>)"
proof -
  from fuel obtain f where "fuel = 5 + f" using le_iff_add by blast
  then have f: "fuel = Suc (Suc (Suc (Suc (Suc f))))" by simp
  have e4: "ticks w + 4 = Suc (Suc (Suc (Suc (ticks w))))" by simp
  from nc have n4: "\<not> ctx_done c (Suc (Suc (Suc (Suc (ticks w)))))" unfolding e4 .
  have nb: "\<not> ctx_done c s" if "s \<le> Suc (Suc (Suc (Suc (ticks w))))" for s
    using n4 that ctx_done_mono by blast
  have n0: "\<not> ctx_done c (ticks w)" by (rule nb) simp
  have n1: "\<not> ctx_done c (Suc (ticks w))" by (rule nb) simp
  have n2: "\<not> ctx_done c (Suc (Suc (ticks w)))" by (rule nb) simp
  have n3: "\<not> ctx_done c (Suc (Suc (Suc (ticks w))))" by (rule nb) simp
  show ?thesis
    unfolding ReadBytes_def f
    by (simp del: ReadBytes_loop.simps add: ReadBytes_loop_eof_step rd n0 n1 n2 n3 n4)
qed

lemma eof_streak_inv:
  "ReadBytes_loop fuel c (Some rd) w buffer er = Some (Return (b, Some EOF), w') \<Longrightarrow>
   er \<le> eof_streak rd k0 (nreads w) \<Longrightarrow> k0 \<le> nreads w \<Longrightarrow>
   5 \<le> eof_streak rd k0 (nreads w')"
proof (induction fuel arbitrary: w buffer er)
  case 0
  then show ?case by simp
next
  case (Suc fuel)
  let ?data = "fst (rd (nreads w) 1024)"
  let ?er1 = "if 0 < length ?data then 0 else er"
  let ?buffer1 = "if 0 < length ?data then buffer @ ?data else buffer"
  let ?w1 = "did_read (poll w)"
  from Suc.prems(1) have nd: "\<not> ctx_done c (ticks w)"
    by (cases "ctx_done c (ticks w)") simp_all
  from Suc.prems(1) nd have np: "\<not> 1024 < length ?data"
    by (cases "1024 < length ?data") (simp_all add: Let_def)
  show ?case
  proof (cases "snd (rd (nreads w) 1024)")
    case None
    from Suc.prems(1) nd np None have len: "\<not> length ?data < 1024"
      by (cases "length ?data < 1024") (simp_all add: Let_def)
    then have ne: "?data \<noteq> []" by auto
    from Suc.prems(1) nd np None len ne have
      r: "ReadBytes_loop fuel c (Some rd) ?w1 (buffer @ ?data) 0 = Some (Return (b, Some EOF), w')"
      by (simp add: Let_def)
    from Suc.IH [OF r] Suc.prems(3) show ?thesis by simp
  next
    case (Some e)
    show ?thesis
    proof (cases "e = EOF")
      case True
      have le: "Suc ?er1 \<le> eof_streak rd k0 (nreads ?w1)"
        using True Some Suc.prems(2,3) by simp
      show ?thesis
      proof (cases "5 \<le> Suc ?er1")
        case T5: True
        with Suc.prems(1) nd np Some True have "w' = ?w1"
          by (simp add: Let_def maxEmptyReads_def)
        with le T5 show ?thesis by simp
      next
        case F5: False
        with Suc.prems(1) nd np Some True have
          r: "ReadBytes_loop fuel c (Some rd) (sleep 100 ?w1) ?buffer1 (Suc ?er1)
                = Some (Return (b, Some EOF), w')"
          by (simp add: Let_def maxEmptyReads_def)
        from Suc.IH [OF r] le Suc.prems(3) show ?thesis by simp
      qed
    next
      case False
      with Suc.prems(1) nd np Some show ?thesis by (simp add: Let_def)
    qed
  qed
qed

lemma eof_streak_ge:
  "n \<le> eof_streak rd k0 k \<Longrightarrow> 0 < n \<Longrightarrow>
     k0 + n \<le> k \<and> (\<forall>j<n. snd (rd (k - 1 - j) 1024) = Some EOF)"
proof (induction k arbitrary: n)
  case 0
  then show ?case by simp
next
  case (Suc k)
  from Suc.prems obtain m where n: "n = Suc m" by (cases n) auto
  with Suc.prems have c: "k0 \<le> k" "snd (rd k 1024) = Some EOF" and m: "m \<le> eof_streak rd k0 k"
    by (auto split: if_splits)
  have ih: "k0 + m \<le> k \<and> (\<forall>j<m. snd (rd (k - 1 - j) 1024) = Some EOF)"
  proof (cases "m = 0")
    case True
    then show ?thesis using c by simp
  next
    case False
    then show ?thesis using Suc.IH [OF m] by simp
  qed
  have "snd (rd (Suc k - 1 - j) 1024) = Some EOF" if "j < n" for j
  proof (cases j)
    case 0
    then show ?thesis using c by simp
  next
    case (Suc i)
    with that n have "i < m" by simp
    with ih have "snd (rd (k - 1 - i) 1024) = Some EOF" by blast
    then show ?thesis using Suc by simp
  qed
  then show ?case using ih n by simp
qed

lemma ReadBuffConn_trace:
  "ReadBuffConn fuel c conn w = Some (Return (), w') \<Longrightarrow>
   \<exists>ms. (published w' = published w @ map ToBuffer ms \<and> ctx_done c (ticks w' - 1))
       \<or> (\<exists>e. published w' = published w @ map ToBuffer ms @ [ToErr e])"
proof (induction fuel arbitrary: w)
  case 0
  then show ?case by simp
next
  case (Suc fuel)
  show ?case
  proof (cases "ctx_done c (ticks w)")
    case True
    with Suc.prems have "w' = poll w" by (simp add: ReadBuffConn_iter_def)
    with True have "published w' = published w @ map ToBuffer [] \<and> ctx_done c (ticks w' - 1)" by simp
    then show ?thesis by blast
  next
    case nd: False
    show ?thesis
    proof (cases "ReadBytes fuel c conn (poll w)")
      case None
      with Suc.prems nd show ?thesis by (simp add: ReadBuffConn_iter_def)
    next
      case (Some p)
      obtain r w1 where p: "p = (r, w1)" by (cases p)
      from Some p have pub: "published w1 = published w"
        using ReadBytes_loop_published [of fuel c conn "poll w" "[]" 0 r w1] by (simp add: ReadBytes_def)
      show ?thesis
      proof (cases r)
        case Panic
        with Suc.prems nd Some p show ?thesis by (simp add: ReadBuffConn_iter_def)
      next
        case (Return be)
        obtain b eo where be: "be = (b, eo)" by (cases be)
        show ?thesis
        proof (cases eo)
          case None
          with Suc.prems nd Some p Return be have
            "ReadBuffConn fuel c conn (publish (ToBuffer b) w1) = Some (Return (), w')"
            by (simp add: ReadBuffConn_iter_def)
          from Suc.IH [OF this] obtain ms where
            "(published w' = published w @ map ToBuffer (b # ms) \<and> ctx_done c (ticks w' - 1))
             \<or> (\<exists>e. published w' = published w @ map ToBuffer (b # ms) @ [ToErr e])"
            using pub by auto
          then show ?thesis by blast
        next
          case (Some e)
          with Suc.prems nd \<open>ReadBytes fuel c conn (poll w) = Some p\<close> p Return be
          have "w' = publish (ToErr e) w1" by (simp add: ReadBuffConn_iter_def)
          with pub have "published w' = published w @ map ToBuffer [] @ [ToErr e]" by simp
          then show ?thesis by blast
        qed
      qed
    qed
  qed
qed

text \<open>
  Claim C3. For a reader all of whose reads return no bytes and \<^verbatim>\<open>io.EOF\<close>, and a context
  that is not cancelled during the call, \<^verbatim>\<open>ReadBytes\<close> returns the empty accumulator with
  \<^verbatim>\<open>io.EOF\<close> after exactly five reads and four sleeps of 100 ms (five iterations are enough
  fuel). For any reader, \<^verbatim>\<open>ReadBytes\<close> returns \<^verbatim>\<open>io.EOF\<close> only when it has made at least five
  reads and the last five all ended with \<^verbatim>\<open>io.EOF\<close>: a shorter run of end-of-stream reads is
  never reported.
\<close>

theorem ReadBytes_eof_retries:
  "((\<forall>k sz. rd k sz = ([], Some EOF)) \<and> \<not> ctx_done c (ticks w + 4) \<and> 5 \<le> fuel \<longrightarrow>
      ReadBytes fuel c (Some rd) w =
        Some (Return ([], Some EOF),
              w\<lparr>ticks := ticks w + 5, nreads := nreads w + 5,
                sleeps := sleeps w @ [100, 100, 100, 100]\<rparr>))
   \<and> (ReadBytes fuel' c' (Some rd') w' = Some (Return (b, Some EOF), w'') \<longrightarrow>
        nreads w' + 5 \<le> nreads w''
        \<and> (\<forall>j<5. snd (rd' (nreads w'' - 1 - j) 1024) = Some EOF))"
proof -
  have "5 \<le> eof_streak rd' (nreads w') (nreads w'')"
    if "ReadBytes fuel' c' (Some rd') w' = Some (Return (b, Some EOF), w'')"
    using eof_streak_inv [of fuel' c' rd' w' "[]" 0 b w'' "nreads w'"] that
    by (simp add: ReadBytes_def)
  from eof_streak_ge [OF this] ReadBytes_always_eof [of rd c w fuel]
  show ?thesis by simp
qed

theorem ReadBytes_eof_retries_witness:
  "ReadBytes 5 Background (Some rd_eof) io0 =
     Some (Return ([], Some EOF),
           \<lparr>ticks = 5, nreads = 5, sleeps = [100, 100, 100, 100], published = []\<rparr>)
   \<and> snd (rd_eof 0 1024) = Some EOF \<and> snd (rd_eof 4 1024) = Some EOF"
  using ReadBytes_eof_retries [of rd_eof Background io0 5 5 Background rd_eof io0 "[]"
      "\<lparr>ticks = 5, nreads = 5, sleeps = [100, 100, 100, 100], published = []\<rparr>"]
  by (simp add: rd_eof_def io0_def ctx_done_def)

text \<open>
  Claim C4. When the context is not cancelled at the call and the first read returns \<open>n\<close>
  bytes with \<open>0 < n < 1024\<close> and a nil error, \<^verbatim>\<open>ReadBytes\<close> returns exactly those bytes with
  a nil error after one poll of the context and one read, without sleeping, whatever fuel
  is left.
\<close>

theorem ReadBytes_short_read:
  "\<not> ctx_done c (ticks w) \<and> rd (nreads w) 1024 = (data, None)
     \<and> 0 < length data \<and> length data < 1024 \<longrightarrow>
   ReadBytes (Suc fuel) c (Some rd) w =
     Some (Return (data, None), w\<lparr>ticks := Suc (ticks w), nreads := Suc (nreads w)\<rparr>)"
  by (simp add: ReadBytes_def Let_def poll_def did_read_def)

theorem ReadBytes_short_read_witness:
  "ReadBytes (Suc 0) Background (Some rd_hello) io0 =
     Some (Return ([104, 101, 108, 108, 111], None),
           \<lparr>ticks = 1, nreads = 1, sleeps = [], published = []\<rparr>)"
  using ReadBytes_short_read [of Background io0 rd_hello "[104, 101, 108, 108, 111]" 0]
  by (simp add: rd_hello_def io0_def ctx_done_def)






section \<open>Properties of the pass-through relay\<close>

lemma write_requests_ok:
  "(\<forall>j<length vs. Write_result d (k + j) (vs ! j) = None) \<Longrightarrow>
   write_requests d k vs = (None, map (WriteCall Dest) vs)"
proof (induction vs arbitrary: k)
  case Nil
  then show ?case by simp
next
  case (Cons v vs)
  from Cons.prems have h: "Write_result d k v = None" by force
  have "\<forall>j<length vs. Write_result d (Suc k + j) (vs ! j) = None"
  proof (intro allI impI)
    fix j assume "j < length vs"
    with Cons.prems have "Write_result d (k + Suc j) ((v # vs) ! Suc j) = None"
      by (metis Suc_less_eq length_Cons)
    then show "Write_result d (Suc k + j) (vs ! j) = None" by simp
  qed
  from Cons.IH [OF this] h show ?case by simp
qed

lemma write_requests_fail:
  "i < length vs \<Longrightarrow> (\<forall>j<i. Write_result d (k + j) (vs ! j) = None) \<Longrightarrow>
   Write_result d (k + i) (vs ! i) = Some e \<Longrightarrow>
   write_requests d k vs = (Some e, map (WriteCall Dest) (take (Suc i) vs))"
proof (induction vs arbitrary: k i)
  case Nil
  then show ?case by simp
next
  case (Cons v vs)
  show ?case
  proof (cases i)
    case 0
    with Cons.prems show ?thesis by simp
  next
    case (Suc m)
    with Cons.prems have h: "Write_result d k v = None" by force
    have a: "m < length vs" using Cons.prems(1) Suc by simp
    have b: "\<forall>j<m. Write_result d (Suc k + j) (vs ! j) = None"
    proof (intro allI impI)
      fix j assume "j < m"
      then have "Suc j < i" using Suc by simp
      with Cons.prems(2) have "Write_result d (k + Suc j) ((v # vs) ! Suc j) = None" by blast
      then show "Write_result d (Suc k + j) (vs ! j) = None" by simp
    qed
    have c: "Write_result d (Suc k + m) (vs ! m) = Some e" using Cons.prems(3) Suc by simp
    from Cons.IH [OF a b c] h Suc show ?thesis by simp
  qed
qed

lemma dest_writes_map [simp]: "dest_writes (map (WriteCall Dest) vs @ tr) = vs @ dest_writes tr"
  by (induction vs) auto

lemma write_requests_length:
  "length (snd (write_requests d k vs)) \<le> length vs"
  by (induction vs arbitrary: k) (simp_all split: option.splits)

lemma write_requests_all:
  "fst (write_requests d k vs) = None \<Longrightarrow> length (snd (write_requests d k vs)) = length vs"
  by (induction vs arbitrary: k) (simp_all split: option.splits)

lemma write_requests_take:
  "map (WriteCall Dest) (take (length (snd (write_requests d k vs))) vs) = snd (write_requests d k vs)"
  by (induction vs arbitrary: k) (simp_all split: option.splits)

lemma PassThrough_body_trace:
  assumes "PassThrough_body fuel ev c cl d chunks = Some (res, tr)"
  shows "\<exists>rest. tr = snd (write_requests d 0 chunks) @ rest
           \<and> CloseCall Dest \<notin> set rest \<and> dest_writes rest = []"
proof (cases "write_requests d 0 chunks")
  case (Pair r tr0)
  show ?thesis
  proof (cases r)
    case (Some e)
    with assms Pair show ?thesis by (simp add: PassThrough_body_def)
  next
    case None
    with assms Pair show ?thesis
      by (cases ev) (auto simp: PassThrough_body_def split: if_splits option.splits)
  qed
qed

text \<open>
  Claim C10. With a nil destination connection \<^verbatim>\<open>PassThrough\<close> returns a nil buffer and the
  error at once, for every client connection, request buffer, context and \<^verbatim>\<open>select\<close> case:
  the trace of the call is empty, so nothing is written and nothing is closed.
\<close>

theorem PassThrough_nil_dest:
  "PassThrough fuel ev c clientConn None requestBuffer = Some (Return (None, Some ErrPassThrough), [])"
  by (simp add: PassThrough_def)

text \<open>
  Claim C6. With a destination connection, \<^verbatim>\<open>PassThrough\<close> writes the request chunks to it
  in the order given. When write number \<open>i\<close> is the first to fail, the call returns that
  error, having made the writes up to that one and then \<^verbatim>\<open>Close\<close> on the destination, and
  nothing else. On every return, the last call made is \<^verbatim>\<open>Close\<close> on the destination, it is
  made once, and the writes to the destination before it are a prefix of the chunks, in
  order: all of them when no write failed.
\<close>

theorem PassThrough_writes_and_close:
  "(i < length chunks \<and> (\<forall>j<i. Write_result d j (chunks ! j) = None)
      \<and> Write_result d i (chunks ! i) = Some e \<longrightarrow>
      PassThrough fuel ev c cl (Some d) chunks =
        Some (Return (None, Some e), map (WriteCall Dest) (take (Suc i) chunks) @ [CloseCall Dest]))
   \<and> (PassThrough fuel' ev' c' cl' (Some d') chunks' = Some (res, tr) \<longrightarrow>
        (\<exists>pre n. tr = pre @ [CloseCall Dest] \<and> CloseCall Dest \<notin> set pre
            \<and> n \<le> length chunks' \<and> dest_writes pre = take n chunks'
            \<and> ((\<forall>j<length chunks'. Write_result d' j (chunks' ! j) = None) \<longrightarrow> n = length chunks')))"
proof (intro conjI impI)
  assume a: "i < length chunks \<and> (\<forall>j<i. Write_result d j (chunks ! j) = None)
      \<and> Write_result d i (chunks ! i) = Some e"
  then have "write_requests d 0 chunks = (Some e, map (WriteCall Dest) (take (Suc i) chunks))"
    using write_requests_fail [of i chunks d 0 e] by simp
  then show "PassThrough fuel ev c cl (Some d) chunks =
        Some (Return (None, Some e), map (WriteCall Dest) (take (Suc i) chunks) @ [CloseCall Dest])"
    by (simp add: PassThrough_def PassThrough_body_def)
next
  assume p: "PassThrough fuel' ev' c' cl' (Some d') chunks' = Some (res, tr)"
  then obtain pre where pre: "PassThrough_body fuel' ev' c' cl' d' chunks' = Some (res, pre)"
    and tr: "tr = pre @ [CloseCall Dest]"
    by (auto simp: PassThrough_def split: option.splits)
  from PassThrough_body_trace [OF pre] obtain rest where
    rest: "pre = snd (write_requests d' 0 chunks') @ rest" "CloseCall Dest \<notin> set rest"
      "dest_writes rest = []" by blast
  define n where "n = length (snd (write_requests d' 0 chunks'))"
  have n: "n \<le> length chunks'" "snd (write_requests d' 0 chunks') = map (WriteCall Dest) (take n chunks')"
    "fst (write_requests d' 0 chunks') = None \<longrightarrow> n = length chunks'"
    unfolding n_def
    using write_requests_length [of d' 0 chunks'] write_requests_take [of d' 0 chunks']
      write_requests_all [of d' 0 chunks'] by simp_all
  have all: "n = length chunks'" if "\<forall>j<length chunks'. Write_result d' j (chunks' ! j) = None"
    using write_requests_ok [of chunks' d' 0] that n(3) by simp
  have "CloseCall Dest \<notin> set pre" using rest n by auto
  moreover have "dest_writes pre = take n chunks'" using rest n by simp
  ultimately show "\<exists>pre n. tr = pre @ [CloseCall Dest] \<and> CloseCall Dest \<notin> set pre
            \<and> n \<le> length chunks' \<and> dest_writes pre = take n chunks'
            \<and> ((\<forall>j<length chunks'. Write_result d' j (chunks' ! j) = None) \<longrightarrow> n = length chunks')"
    using tr n(1) all by blast
qed

theorem PassThrough_writes_and_close_witness:
  "PassThrough 0 CtxDone Background None (Some conn_second_write_fails) [[1], [2], [3]] =
     Some (Return (None, Some (ErrOther ''broken pipe'')),
           [WriteCall Dest [1], WriteCall Dest [2], CloseCall Dest])
   \<and> PassThrough 1 (RecvErr (Some (NetError True))) Background None (Some conn_timeout) [[1], [2]] =
       Some (Return (None, None), [WriteCall Dest [1], WriteCall Dest [2], StartReader, CloseCall Dest])
   \<and> (\<exists>pre. [WriteCall Dest [1], WriteCall Dest [2], StartReader, CloseCall Dest] = pre @ [CloseCall Dest]
         \<and> CloseCall Dest \<notin> set pre \<and> dest_writes pre = [[1], [2]])"
proof -
  have w: "PassThrough 1 (RecvErr (Some (NetError True))) Background None (Some conn_timeout) [[1], [2]] =
       Some (Return (None, None), [WriteCall Dest [1], WriteCall Dest [2], StartReader, CloseCall Dest])"
    by (simp add: PassThrough_def PassThrough_body_def select_fires_def reader_first_def
        ReadBuffConn_iter_def ReadBytes_def conn_timeout_def io0_def ctx_done_def Let_def
        poll_def did_read_def publish_def)
  have h: "(1::nat) < length [[1], [2], [3::8 word]]
      \<and> (\<forall>j<1. Write_result conn_second_write_fails j ([[1], [2], [3]] ! j) = None)
      \<and> Write_result conn_second_write_fails 1 ([[1], [2], [3]] ! 1) = Some (ErrOther ''broken pipe'')"
    by (simp add: conn_second_write_fails_def)
  have h2: "\<forall>j<length [[1], [2::8 word]]. Write_result conn_timeout j ([[1], [2]] ! j) = None"
    by (simp add: conn_timeout_def)
  from PassThrough_writes_and_close
    [of 1 "[[1], [2], [3]]" conn_second_write_fails "ErrOther ''broken pipe''" 0 CtxDone Background None
        1 "RecvErr (Some (NetError True))" Background None conn_timeout "[[1], [2]]"
        "Return (None, None)" "[WriteCall Dest [1], WriteCall Dest [2], StartReader, CloseCall Dest]"]
    h h2 w
  show ?thesis by (auto simp: numeral_2_eq_2)
qed

text \<open>
  Claim C7. After the request chunks were written, when the \<^verbatim>\<open>select\<close> receives the error
  that the goroutine's \<^verbatim>\<open>ReadBuffConn\<close> sent first, \<^verbatim>\<open>PassThrough\<close> returns nil and nil if the
  error is a \<^verbatim>\<open>net.Error\<close> whose \<^verbatim>\<open>Timeout()\<close> is true, and nil and that error for every other
  error, a \<^verbatim>\<open>net.Error\<close> whose \<^verbatim>\<open>Timeout()\<close> is false included; when the \<^verbatim>\<open>select\<close> takes the
  case of the cancelled context, it returns nil and nil.
\<close>

theorem PassThrough_reader_error:
  "((\<forall>j<length chunks. Write_result d j (chunks ! j) = None)
      \<and> reader_first fuel c d = Some [ToErr e] \<longrightarrow>
      PassThrough fuel (RecvErr (Some e)) c cl (Some d) chunks =
        Some (Return (None, if e = NetError True then None else Some e),
              map (WriteCall Dest) chunks @ [StartReader, CloseCall Dest]))
   \<and> ((\<forall>j<length chunks'. Write_result d' j (chunks' ! j) = None) \<and> c' \<noteq> Background \<longrightarrow>
      PassThrough fuel' CtxDone c' cl' (Some d') chunks' =
        Some (Return (None, None), map (WriteCall Dest) chunks' @ [StartReader, CloseCall Dest]))"
proof -
  have t: "is_net_timeout (Some e) = (e = NetError True)"
    by (cases e) auto
  show ?thesis
    using write_requests_ok [of chunks d 0] write_requests_ok [of chunks' d' 0]
    by (simp add: PassThrough_def PassThrough_body_def select_fires_def t)
qed

theorem PassThrough_reader_error_witness:
  "PassThrough 1 (RecvErr (Some (NetError True))) Background None (Some conn_timeout) [[1], [2]] =
     Some (Return (None, None), [WriteCall Dest [1], WriteCall Dest [2], StartReader, CloseCall Dest])
   \<and> PassThrough 1 (RecvErr (Some (NetError False))) Background None (Some conn_refused) [[1], [2]] =
       Some (Return (None, Some (NetError False)),
             [WriteCall Dest [1], WriteCall Dest [2], StartReader, CloseCall Dest])
   \<and> PassThrough 1 (RecvErr (Some (ErrOther ''connection reset by peer''))) Background None
         (Some conn_reset) [[1], [2]] =
       Some (Return (None, Some (ErrOther ''connection reset by peer'')),
             [WriteCall Dest [1], WriteCall Dest [2], StartReader, CloseCall Dest])
   \<and> PassThrough 0 CtxDone (CancelledFrom 3) None (Some conn_reset) [[1], [2]] =
       Some (Return (None, None), [WriteCall Dest [1], WriteCall Dest [2], StartReader, CloseCall Dest])"
proof -
  have r1: "reader_first 1 Background conn_timeout = Some [ToErr (NetError True)]"
    and r2: "reader_first 1 Background conn_reset = Some [ToErr (ErrOther ''connection reset by peer'')]"
    and r3: "reader_first 1 Background conn_refused = Some [ToErr (NetError False)]"
    by (simp_all add: reader_first_def ReadBuffConn_iter_def ReadBytes_def conn_timeout_def
        conn_reset_def conn_refused_def io0_def ctx_done_def Let_def poll_def did_read_def publish_def)
  have h1: "\<forall>j<length [[1], [2::8 word]]. Write_result conn_timeout j ([[1], [2]] ! j) = None"
    and h2: "\<forall>j<length [[1], [2::8 word]]. Write_result conn_reset j ([[1], [2]] ! j) = None"
    and h3: "\<forall>j<length [[1], [2::8 word]]. Write_result conn_refused j ([[1], [2]] ! j) = None"
    by (simp_all add: conn_timeout_def conn_reset_def conn_refused_def)
  from PassThrough_reader_error [of "[[1], [2]]" conn_timeout 1 Background "NetError True" None
      "[[1], [2]]" conn_reset "CancelledFrom 3" 0 None]
    PassThrough_reader_error [of "[[1], [2]]" conn_reset 1 Background "ErrOther ''connection reset by peer''" None
      "[]" conn_reset "CancelledFrom 3" 0 None]
    PassThrough_reader_error [of "[[1], [2]]" conn_refused 1 Background "NetError False" None
      "[]" conn_reset "CancelledFrom 3" 0 None]
    r1 r2 r3 h1 h2 h3
  show ?thesis by simp
qed

section \<open>Properties of the address codec\<close>

lemma ten_cases: "d < 10 \<Longrightarrow> d = 0 \<or> d = 1 \<or> d = 2 \<or> d = 3 \<or> d = 4 \<or> d = 5 \<or> d = 6 \<or> d = 7 \<or> d = 8 \<or> d = (9::nat)"
  by arith

lemma digit_char_props:
  assumes "d < 10"
  shows "is_digit (digit_char d)" and "digit_val (digit_char d) = d"
    and "digit_char d \<noteq> CHR ''.''" and "digit_char d \<noteq> CHR '':''"
    and "(digit_char d = CHR ''0'') = (d = 0)"
  using ten_cases [OF assms]
  by (auto simp: digit_char_def is_digit_def digit_val_def)

lemma length_bin_digits [simp]: "length (bin_digits k n) = k"
  by (induction k) simp_all

lemma bin_digits_add: "bin_digits (a + b) n = bin_digits a (n div 2 ^ b) @ bin_digits b n"
proof (induction a)
  case 0
  then show ?case by simp
next
  case (Suc a)
  have "n div 2 ^ (a + b) = n div (2 ^ b * 2 ^ a)"
    by (simp add: power_add mult.commute)
  also have "\<dots> = n div 2 ^ b div 2 ^ a"
    by (rule div_mult2_eq)
  finally show ?case using Suc by simp
qed

lemma bin_digits_zero: "bin_digits k 0 = replicate k CHR ''0''"
  by (induction k) (simp_all add: digit_char_def)

lemma bin_digits_snoc: "bin_digits (Suc k) n = bin_digits k (n div 2) @ [digit_char (n mod 2)]"
  using bin_digits_add [of k 1 n] by simp

lemma pad_zeros_snoc: "0 < wid \<Longrightarrow> pad_zeros wid (s @ [ch]) = pad_zeros (wid - 1) s @ [ch]"
  by (simp add: pad_zeros_def)

lemma pad_fmt_bin: "n < 2 ^ k \<Longrightarrow> 0 < k \<Longrightarrow> pad_zeros k (fmt_uint 2 n) = bin_digits k n"
proof (induction n arbitrary: k rule: less_induct)
  case (less n)
  from less.prems obtain j where k: "k = Suc j" by (cases k) auto
  show ?case
  proof (cases "n < 2")
    case True
    then have "n div 2 = 0" "n mod 2 = n" by simp_all
    then show ?thesis
      using True by (simp add: k fmt_uint.simps [of 2 n] bin_digits_snoc bin_digits_zero pad_zeros_def
          del: bin_digits.simps)
  next
    case False
    then have lt: "n div 2 < n" by simp
    from less.prems k have b: "n div 2 < 2 ^ j" by simp
    from False b have j: "0 < j" by (cases j) auto
    from less.IH [OF lt b j] False show ?thesis
      by (simp add: k fmt_uint.simps [of 2 n] bin_digits_snoc pad_zeros_snoc del: bin_digits.simps)
  qed
qed

lemma ParseUint_loop_bin:
  "acc * 2 ^ k + n mod 2 ^ k \<le> maxVal \<Longrightarrow>
   ParseUint_loop 2 maxVal acc (bin_digits k n) = (acc * 2 ^ k + n mod 2 ^ k, None)"
proof (induction k arbitrary: acc)
  case 0
  then show ?case by simp
next
  case (Suc k)
  let ?b = "n div 2 ^ k mod 2"
  have b: "?b < 10" by (rule less_trans [of _ 2]) simp_all
  have b2: "?b < 2" by simp
  have "n mod 2 ^ Suc k = n mod (2 ^ k * 2)" by (simp add: mult.commute)
  also have "\<dots> = 2 ^ k * ?b + n mod 2 ^ k" by (rule mod_mult2_eq)
  finally have split: "n mod 2 ^ Suc k = ?b * 2 ^ k + n mod 2 ^ k" by (simp add: mult.commute)
  have e0: "(acc * 2 + ?b) * 2 ^ k + n mod 2 ^ k = acc * 2 ^ Suc k + (?b * 2 ^ k + n mod 2 ^ k)"
    by (simp add: algebra_simps)
  have e: "(acc * 2 + ?b) * 2 ^ k + n mod 2 ^ k = acc * 2 ^ Suc k + n mod 2 ^ Suc k"
    by (simp only: e0 split)
  have le: "acc * 2 + ?b \<le> (acc * 2 + ?b) * 2 ^ k + n mod 2 ^ k"
    by (metis le_add1 mult.right_neutral mult_le_mono2 one_le_numeral one_le_power order_trans)
  with Suc.prems e have ok: "\<not> maxVal < acc * 2 + ?b" by simp
  from Suc.prems e have "(acc * 2 + ?b) * 2 ^ k + n mod 2 ^ k \<le> maxVal" by simp
  from Suc.IH [OF this] ok b2 show ?case
    by (simp add: digit_char_props [OF b] e del: power_Suc)
qed

lemma ParseUint_bin:
  "0 < k \<Longrightarrow> k \<le> bitSize \<Longrightarrow> fst (ParseUint (bin_digits k n) 2 bitSize) = n mod 2 ^ k"
proof -
  assume k: "0 < k" "k \<le> bitSize"
  have "n mod 2 ^ k < (2::nat) ^ k" by simp
  also have "\<dots> \<le> 2 ^ bitSize" using k by (simp add: power_increasing)
  finally have "0 * 2 ^ k + n mod 2 ^ k \<le> 2 ^ bitSize - 1" by simp
  from ParseUint_loop_bin [OF this] k show ?thesis
    by (cases k) (simp_all add: ParseUint_def)
qed

lemma Sprintf_032b_bin: "Sprintf_032b ip = bin_digits 32 (unat ip)"
proof -
  have "unat ip < 2 ^ 32" using unsigned_less [of ip] by simp
  then show ?thesis by (simp add: Sprintf_032b_def pad_fmt_bin)
qed

lemma bin_digits_32:
  "bin_digits 32 n = bin_digits 8 (n div 2 ^ 24) @ bin_digits 8 (n div 2 ^ 16)
                       @ bin_digits 8 (n div 2 ^ 8) @ bin_digits 8 n"
  using bin_digits_add [of 8 24 n] bin_digits_add [of 8 16 n] bin_digits_add [of 8 8 n]
  by simp

lemma ToIP4AddressStr_octets:
  "ToIP4AddressStr ip =
     Sprintf_d (unat ip div 2 ^ 24 mod 256) @ ''.'' @ Sprintf_d (unat ip div 2 ^ 16 mod 256) @ ''.''
       @ Sprintf_d (unat ip div 2 ^ 8 mod 256) @ ''.'' @ Sprintf_d (unat ip mod 256)"
proof -
  let ?n = "unat ip"
  let ?A = "bin_digits 8 (?n div 2 ^ 24)" and ?B = "bin_digits 8 (?n div 2 ^ 16)"
  let ?C = "bin_digits 8 (?n div 2 ^ 8)" and ?D = "bin_digits 8 ?n"
  have s: "Sprintf_032b ip = ?A @ ?B @ ?C @ ?D"
    by (simp only: Sprintf_032b_bin bin_digits_32)
  have a: "substr (?A @ ?B @ ?C @ ?D) 0 8 = ?A" by (simp add: substr_def)
  have b: "substr (?A @ ?B @ ?C @ ?D) 8 16 = ?B" by (simp add: substr_def)
  have c: "substr (?A @ ?B @ ?C @ ?D) 16 24 = ?C" by (simp add: substr_def)
  have d: "substr (?A @ ?B @ ?C @ ?D) 24 32 = ?D" by (simp add: substr_def)
  have p: "fst (ParseUint (bin_digits 8 m) 2 64) = m mod 256" for m
    using ParseUint_bin [of 8 64 m] by simp
  show ?thesis
    unfolding ToIP4AddressStr_def Let_def s a b c d p by simp
qed

lemma fmt10_small: "n < 10 \<Longrightarrow> fmt_uint 10 n = [digit_char n]"
  by (simp add: fmt_uint.simps [of 10 n])

lemma fmt10_big: "\<not> n < 10 \<Longrightarrow> fmt_uint 10 n = fmt_uint 10 (n div 10) @ [digit_char (n mod 10)]"
  by (simp add: fmt_uint.simps [of 10 n])

lemma fmt10_nonempty: "fmt_uint 10 n \<noteq> []"
  by (cases "n < 10") (simp_all add: fmt10_small fmt10_big)

lemma fmt10_digits: "ch \<in> set (fmt_uint 10 n) \<Longrightarrow> is_digit ch"
proof (induction n rule: less_induct)
  case (less n)
  show ?case
  proof (cases "n < 10")
    case True
    with less.prems show ?thesis by (simp add: fmt10_small digit_char_props)
  next
    case False
    then have lt: "n div 10 < n" by simp
    from less.prems False have "ch \<in> set (fmt_uint 10 (n div 10)) \<or> ch = digit_char (n mod 10)"
      by (auto simp: fmt10_big)
    then show ?thesis
    proof
      assume "ch \<in> set (fmt_uint 10 (n div 10))"
      then show ?thesis by (rule less.IH [OF lt])
    next
      assume "ch = digit_char (n mod 10)"
      then show ?thesis by (simp add: digit_char_props)
    qed
  qed
qed

lemma dec_value_snoc: "dec_value acc (ds @ [ch]) = dec_value acc ds * 10 + digit_val ch"
  by (simp add: dec_value_def)

lemma fmt10_value: "dec_value 0 (fmt_uint 10 n) = n"
proof (induction n rule: less_induct)
  case (less n)
  show ?case
  proof (cases "n < 10")
    case True
    then show ?thesis by (simp add: fmt10_small dec_value_def digit_char_props)
  next
    case False
    then have "n div 10 < n" by simp
    from less.IH [OF this] False show ?thesis
      by (simp add: fmt10_big dec_value_snoc digit_char_props)
  qed
qed

lemma fmt10_hd: "hd (fmt_uint 10 n) = CHR ''0'' \<Longrightarrow> n = 0"
proof (induction n rule: less_induct)
  case (less n)
  show ?case
  proof (cases "n < 10")
    case True
    with less.prems show ?thesis by (simp add: fmt10_small digit_char_props)
  next
    case False
    then have lt: "n div 10 < n" by simp
    from False less.prems have "hd (fmt_uint 10 (n div 10)) = CHR ''0''"
      by (simp add: fmt10_big fmt10_nonempty)
    from less.IH [OF lt this] False show ?thesis by simp
  qed
qed

lemma fmt10_zero: "fmt_uint 10 0 = ''0''"
  by (simp add: fmt10_small digit_char_def)

lemma dec_value_ge: "acc \<le> dec_value acc ds"
proof (induction ds arbitrary: acc)
  case Nil
  then show ?case by (simp add: dec_value_def)
next
  case (Cons ch ds)
  have "acc \<le> acc * 10 + digit_val ch" by simp
  also have "\<dots> \<le> dec_value (acc * 10 + digit_val ch) ds" by (rule Cons.IH)
  finally show ?case by (simp add: dec_value_def)
qed

lemma dtoi_loop_digits:
  "(\<forall>ch \<in> set ds. is_digit ch) \<Longrightarrow> dec_value acc ds < big \<Longrightarrow>
   dtoi_loop acc i (ds @ rest) = dtoi_loop (dec_value acc ds) (i + length ds) rest"
proof (induction ds arbitrary: acc i)
  case Nil
  then show ?case by (simp add: dec_value_def)
next
  case (Cons ch ds)
  have v: "dec_value acc (ch # ds) = dec_value (acc * 10 + digit_val ch) ds"
    by (simp add: dec_value_def)
  from Cons.prems(2) v dec_value_ge [of "acc * 10 + digit_val ch" ds]
  have small: "\<not> big \<le> acc * 10 + digit_val ch" by simp
  from Cons.prems have "dtoi_loop (acc * 10 + digit_val ch) (Suc i) (ds @ rest)
      = dtoi_loop (dec_value (acc * 10 + digit_val ch) ds) (Suc i + length ds) rest"
    by (intro Cons.IH) (simp_all add: v)
  with Cons.prems(1) small v show ?case by simp
qed

lemma dtoi_fmt:
  assumes "n < big" and "rest = [] \<or> \<not> is_digit (hd rest)"
  shows "dtoi (fmt_uint 10 n @ rest) = (n, length (fmt_uint 10 n), True)"
proof -
  have "dtoi (fmt_uint 10 n @ rest) = dtoi_loop n (length (fmt_uint 10 n)) rest"
    using dtoi_loop_digits [of "fmt_uint 10 n" 0 0 rest] assms(1)
    by (simp add: dtoi_def fmt10_value fmt10_digits)
  also have "\<dots> = (n, length (fmt_uint 10 n), True)"
    using assms(2) fmt10_nonempty [of n] by (cases rest) auto
  finally show ?thesis .
qed

lemma parseIPv4_field:
  assumes n: "n \<le> 255" and rest: "rest = [] \<or> \<not> is_digit (hd rest)"
    and s: "s = (if i > 0 then CHR ''.'' # fmt_uint 10 n @ rest else fmt_uint 10 n @ rest)"
  shows "parseIPv4_loop (Suc k) i s p = parseIPv4_loop k (Suc i) rest (p @ [of_nat n])"
proof -
  let ?f = "fmt_uint 10 n"
  have nb: "n < big" using n by (simp add: big_def)
  have d: "dtoi (?f @ rest) = (n, length ?f, True)" by (rule dtoi_fmt [OF nb rest])
  have ne: "s \<noteq> []" using s fmt10_nonempty [of n] by auto
  have s1: "(if i > 0 then tl s else s) = ?f @ rest" using s by simp
  have dot: "\<not> (i > 0 \<and> hd s \<noteq> CHR ''.'')" using s by simp
  have lead: "\<not> (length ?f > 1 \<and> hd (?f @ rest) = CHR ''0'')"
  proof
    assume a: "length ?f > 1 \<and> hd (?f @ rest) = CHR ''0''"
    then have "hd ?f = CHR ''0''" using fmt10_nonempty [of n] by simp
    then have "n = 0" by (rule fmt10_hd)
    with a show False by (simp add: fmt10_zero)
  qed
  show ?thesis
    using ne dot lead n by (auto simp: s1 d Let_def simp del: One_nat_def)
qed

lemma not_digit_dot: "\<not> is_digit CHR ''.''"
  by (simp add: is_digit_def)

lemma parseIPv4_dotted:
  assumes "a \<le> 255" "b \<le> 255" "c \<le> 255" "d \<le> 255"
  shows "parseIPv4 (fmt_uint 10 a @ ''.'' @ fmt_uint 10 b @ ''.'' @ fmt_uint 10 c @ ''.'' @ fmt_uint 10 d)
           = Some (IPv4 (of_nat a) (of_nat b) (of_nat c) (of_nat d))"
proof -
  let ?r3 = "CHR ''.'' # fmt_uint 10 d"
  let ?r2 = "CHR ''.'' # fmt_uint 10 c @ ?r3"
  let ?r1 = "CHR ''.'' # fmt_uint 10 b @ ?r2"
  have four: "(4::nat) = Suc (Suc (Suc (Suc 0)))" by simp
  have 1: "parseIPv4_loop (Suc (Suc (Suc (Suc 0)))) 0 (fmt_uint 10 a @ ?r1) []
             = parseIPv4_loop (Suc (Suc (Suc 0))) (Suc 0) ?r1 ([] @ [of_nat a])"
    by (rule parseIPv4_field [OF assms(1)]) (simp_all add: not_digit_dot)
  have 2: "parseIPv4_loop (Suc (Suc (Suc 0))) (Suc 0) ?r1 [of_nat a]
             = parseIPv4_loop (Suc (Suc 0)) (Suc (Suc 0)) ?r2 ([of_nat a] @ [of_nat b])"
    by (rule parseIPv4_field [OF assms(2)]) (simp_all add: not_digit_dot)
  have 3: "parseIPv4_loop (Suc (Suc 0)) (Suc (Suc 0)) ?r2 [of_nat a, of_nat b]
             = parseIPv4_loop (Suc 0) (Suc (Suc (Suc 0))) ?r3 ([of_nat a, of_nat b] @ [of_nat c])"
    by (rule parseIPv4_field [OF assms(3)]) (simp_all add: not_digit_dot)
  have 4: "parseIPv4_loop (Suc 0) (Suc (Suc (Suc 0))) ?r3 [of_nat a, of_nat b, of_nat c]
             = parseIPv4_loop 0 (Suc (Suc (Suc (Suc 0)))) [] ([of_nat a, of_nat b, of_nat c] @ [of_nat d])"
    by (rule parseIPv4_field [OF assms(4)]) (simp_all add: not_digit_dot)
  show ?thesis
    unfolding parseIPv4_def four using 1 2 3 4 by simp
qed

lemma digit_not_sep: "is_digit ch \<Longrightarrow> ch \<noteq> CHR ''.'' \<and> ch \<noteq> CHR '':''"
  by (auto simp: is_digit_def)

lemma ParseIP_scan_digits:
  "(\<forall>ch \<in> set ds. is_digit ch) \<Longrightarrow> ParseIP_scan f s (ds @ CHR ''.'' # rest) = parseIPv4 s"
  by (induction ds) (simp_all add: digit_not_sep)

lemma ParseIP_dotted:
  assumes "a \<le> 255" "b \<le> 255" "c \<le> 255" "d \<le> 255"
  shows "ParseIP f (fmt_uint 10 a @ ''.'' @ fmt_uint 10 b @ ''.'' @ fmt_uint 10 c @ ''.'' @ fmt_uint 10 d)
           = Some (IPv4 (of_nat a) (of_nat b) (of_nat c) (of_nat d))"
proof -
  let ?s = "fmt_uint 10 a @ ''.'' @ fmt_uint 10 b @ ''.'' @ fmt_uint 10 c @ ''.'' @ fmt_uint 10 d"
  have "ParseIP f ?s = parseIPv4 ?s"
    unfolding ParseIP_def
    using ParseIP_scan_digits [of "fmt_uint 10 a" f ?s "fmt_uint 10 b @ ''.'' @ fmt_uint 10 c @ ''.'' @ fmt_uint 10 d"]
    by (simp add: fmt10_digits)
  with parseIPv4_dotted [OF assms] show ?thesis by simp
qed

lemma To4_IPv4: "To4 (Some (IPv4 a b c d)) = Some [a, b, c, d]"
  by (simp add: To4_def IPv4_def eval_nat_numeral)

lemma octet_word: "(of_nat (unat v div 2 ^ k mod 256) :: 8 word) = ucast (drop_bit k (v :: 32 word))"
proof -
  have "(of_nat (unat v div 2 ^ k mod 256) :: 8 word) = of_nat (unat v div 2 ^ k)"
    by (simp add: word_of_nat_eq_iff take_bit_eq_mod)
  also have "\<dots> = of_nat (unat (drop_bit k v))"
    by (subst unat_drop_bit_eq) (simp only: drop_bit_eq_div)
  also have "\<dots> = ucast (drop_bit k v)"
    by (rule of_nat_unat)
  finally show ?thesis .
qed

lemma recompose:
  "push_bit 24 (ucast (ucast (drop_bit 24 v) :: 8 word)) OR push_bit 16 (ucast (ucast (drop_bit 16 v) :: 8 word))
     OR push_bit 8 (ucast (ucast (drop_bit 8 v) :: 8 word)) OR ucast (ucast v :: 8 word) = (v :: 32 word)"
proof (rule bit_word_eqI)
  fix n
  assume "n < LENGTH(32)"
  then have n: "n < 32" by simp
  consider "n < 8" | "8 \<le> n" "n < 16" | "16 \<le> n" "n < 24" | "24 \<le> n"
    by linarith
  then show "bit (push_bit 24 (ucast (ucast (drop_bit 24 v) :: 8 word)) OR push_bit 16 (ucast (ucast (drop_bit 16 v) :: 8 word))
     OR push_bit 8 (ucast (ucast (drop_bit 8 v) :: 8 word)) OR ucast (ucast v :: 8 word) :: 32 word) n = bit v n"
    using n by cases (auto simp: bit_simps)
qed

text \<open>
  Claim C9. For every 32-bit unsigned integer \<open>v\<close>, the dotted-decimal text of
  \<^verbatim>\<open>ToIP4AddressStr\<close>, parsed by \<^verbatim>\<open>net.ParseIP\<close> and converted by \<^verbatim>\<open>ToIPV4\<close>, gives back \<open>v\<close>
  with the flag true. The integer \<^verbatim>\<open>0x0A000001\<close> converts to the text \<^verbatim>\<open>10.0.0.1\<close>, and that
  text converts back to \<^verbatim>\<open>0x0A000001\<close> with the flag true.
\<close>

theorem ToIPV4_ToIP4AddressStr:
  "ToIPV4 (ParseIP parseIPv6 (ToIP4AddressStr v)) = (v, True)
   \<and> ToIP4AddressStr 0x0A000001 = ''10.0.0.1''
   \<and> ToIPV4 (ParseIP parseIPv6 ''10.0.0.1'') = (0x0A000001, True)"
proof -
  have round: "ToIPV4 (ParseIP f (ToIP4AddressStr w)) = (w, True)" for f w
  proof -
    let ?a = "unat w div 2 ^ 24 mod 256" and ?b = "unat w div 2 ^ 16 mod 256"
    let ?c = "unat w div 2 ^ 8 mod 256" and ?d = "unat w div 2 ^ 0 mod 256"
    have le: "?a \<le> 255" "?b \<le> 255" "?c \<le> 255" "?d \<le> 255"
      by (simp_all add: less_Suc_eq_le [symmetric])
    have s: "ToIP4AddressStr w =
        fmt_uint 10 ?a @ ''.'' @ fmt_uint 10 ?b @ ''.'' @ fmt_uint 10 ?c @ ''.'' @ fmt_uint 10 ?d"
      by (simp add: ToIP4AddressStr_octets Sprintf_d_def)
    have p: "ParseIP f (ToIP4AddressStr w) =
        Some (IPv4 (of_nat ?a) (of_nat ?b) (of_nat ?c) (of_nat ?d))"
      unfolding s by (rule ParseIP_dotted [OF le])
    have d0: "(ucast (drop_bit 0 w) :: 8 word) = ucast w" by simp
    show ?thesis
      unfolding p ToIPV4_def To4_IPv4 octet_word d0
      by (simp add: recompose)
  qed
  have lit: "ToIP4AddressStr 0x0A000001 = ''10.0.0.1''"
    by (simp add: ToIP4AddressStr_octets Sprintf_d_def fmt10_small fmt10_big digit_char_def)
  from round [of parseIPv6 v] round [of parseIPv6 "0x0A000001"] lit show ?thesis by simp
qed

end
